theory Spec2Isabelle
  imports Main "HOL-Library.Signed_Division" "HOL-Library.Word" "HOL-Library.Multiset"
begin

section \<open>Paillier homomorphic encryption (src/ui/lib/paillier.ts)\<close>

text \<open>
  The library computes on JavaScript \<open>bigint\<close> values: unbounded integers, modelled as
  \<open>int\<close>. On \<open>bigint\<close>, \<open>a / b\<close> truncates toward zero and \<open>a % b\<close> takes the sign of
  the dividend; these are \<open>sdiv\<close> and \<open>smod\<close>. Both throw a \<open>RangeError\<close> when the divisor
  is \<open>0n\<close>. Every exception of the source is a value of \<open>error\<close>, and a function that can
  throw returns \<open>error + 'a\<close>.
\<close>

subsection \<open>Errors\<close>

datatype error =
    RangeError                    \<comment> \<open>bigint division or remainder by \<open>0n\<close>\<close>
  | NoInverse                     \<comment> \<open>\<open>Error("Modular inverse does not exist")\<close>\<close>
  | InvalidPrimePair int int int  \<comment> \<open>\<open>Error("Invalid prime pair: ...")\<close> with n, \<open>\<lambda>\<close> and their gcd\<close>

definition bigint_div :: "int \<Rightarrow> int \<Rightarrow> error + int" where
  "bigint_div a b = (if b = 0 then Inl RangeError else Inr (a sdiv b))"

definition bigint_rem :: "int \<Rightarrow> int \<Rightarrow> error + int" where
  "bigint_rem a b = (if b = 0 then Inl RangeError else Inr (a smod b))"

subsection \<open>Number-theory primitives\<close>

text \<open>
  \<open>modPow\<close>: \<open>result = 1n; base = base % mod; while (exp > 0n) { ... }\<close>. The first
  remainder throws when \<open>mod\<close> is \<open>0n\<close>, so inside the loop the modulus is not zero.
\<close>

function modPow_loop :: "int \<Rightarrow> int \<Rightarrow> int \<Rightarrow> int \<Rightarrow> int" where
  "modPow_loop result base exp m =
     (if exp > 0
      then modPow_loop (if exp smod 2 = 1 then (result * base) smod m else result)
             ((base * base) smod m) (exp sdiv 2) m
      else result)"
  by pat_completeness auto
termination
  by (relation "measure (\<lambda>(result, base, exp, m). nat exp)")
    (auto simp: signed_divide_int_def sgn_if)

declare modPow_loop.simps [simp del]

definition modPow :: "int \<Rightarrow> int \<Rightarrow> int \<Rightarrow> error + int" where
  "modPow base exp m =
     (case bigint_rem base m of
        Inl e \<Rightarrow> Inl e
      | Inr base' \<Rightarrow> Inr (modPow_loop 1 base' exp m))"

text \<open>
  \<open>extendedGcd\<close> returns the object \<open>{ gcd, x, y }\<close>, here the triple \<open>(gcd, x, y)\<close>.
  The divisor \<open>a\<close> of \<open>b % a\<close> and \<open>b / a\<close> is not zero on that branch.
\<close>

function extendedGcd :: "int \<Rightarrow> int \<Rightarrow> int \<times> int \<times> int" where
  "extendedGcd a b =
     (if a = 0 then (b, 0, 1)
      else (case extendedGcd (b smod a) a of
              (g, x1, y1) \<Rightarrow> (g, y1 - (b sdiv a) * x1, x1)))"
  by pat_completeness auto
termination
  by (relation "measure (\<lambda>(a, b). nat \<bar>a\<bar>)")
    (auto simp: signed_modulo_int_def abs_mult sgn_if intro: abs_mod_less)

declare extendedGcd.simps [simp del]

definition modInverse :: "int \<Rightarrow> int \<Rightarrow> error + int" where
  "modInverse a m =
     (case bigint_rem a m of
        Inl e \<Rightarrow> Inl e
      | Inr a' \<Rightarrow>
          (case extendedGcd a' m of
             (g, x, y) \<Rightarrow>
               if g \<noteq> 1 then Inl NoInverse
               else Inr (((x smod m) + m) smod m)))"

text \<open>
  \<open>gcd\<close> and \<open>lcm\<close> of the source are \<open>gcd_big\<close> and \<open>lcm_big\<close> here (\<open>gcd\<close> and \<open>lcm\<close>
  are the mathematical functions of HOL). \<open>gcd\<close>: \<open>while (b !== 0n) { t = b; b = a % b; a = t }\<close>;
  \<open>lcm\<close> divides by that \<open>gcd\<close> and throws when it is \<open>0n\<close>.
\<close>

function gcd_big :: "int \<Rightarrow> int \<Rightarrow> int" where
  "gcd_big a b = (if b \<noteq> 0 then gcd_big b (a smod b) else a)"
  by pat_completeness auto
termination
  by (relation "measure (\<lambda>(a, b). nat \<bar>b\<bar>)")
    (auto simp: signed_modulo_int_def abs_mult sgn_if intro: abs_mod_less)

declare gcd_big.simps [simp del]

definition lcm_big :: "int \<Rightarrow> int \<Rightarrow> error + int" where
  "lcm_big a b = bigint_div (a * b) (gcd_big a b)"

definition L :: "int \<Rightarrow> int \<Rightarrow> error + int" where
  "L x n = bigint_div (x - 1) n"

text \<open>
  \<open>isPrime\<close>: trial division by the odd numbers \<open>i = 3, 5, ...\<close> while \<open>i * i <= n\<close>.
  The loop variable starts at 3 and grows, so the divisor of \<open>n % i\<close> is not zero.
\<close>

function isPrime_loop :: "int \<Rightarrow> int \<Rightarrow> bool" where
  "isPrime_loop i n =
     (if i * i \<le> n
      then (if n smod i = 0 then False else isPrime_loop (i + 2) n)
      else True)"
  by pat_completeness auto
termination
proof (relation "measure (\<lambda>(i, n). nat (n + 1 - i))")
  show "wf (measure (\<lambda>(i, n). nat (n + 1 - i)))"
    by simp
next
  fix i n :: int
  assume "i * i \<le> n"
  moreover have "i \<le> i * i"
    by (cases "i \<le> 0") (auto intro: order_trans [of i 0 "i * i"])
  ultimately have "i \<le> n"
    by linarith
  then show "((i + 2, n), (i, n)) \<in> measure (\<lambda>(i, n). nat (n + 1 - i))"
    by simp
qed

declare isPrime_loop.simps [simp del]

definition isPrime :: "int \<Rightarrow> bool" where
  "isPrime n =
     (if n < 2 then False
      else if n = 2 \<or> n = 3 then True
      else if n smod 2 = 0 then False
      else isPrime_loop 3 n)"

subsection \<open>Randomness\<close>

text \<open>
  \<open>crypto.getRandomValues\<close> is the only effect of the library. It is modelled by an
  explicit tape of random bytes that the sampling loops consume from the front; a loop
  that has not left by the end of the tape yields \<open>None\<close>.

  \<open>randomBigInt(min, max)\<close>: \<open>range = max - min + 1n\<close>, \<open>bits\<close> is the length of
  \<open>range.toString(2)\<close> (one character for \<open>0\<close>, a leading minus sign for a negative
  number), \<open>bytes = ceil(bits / 8)\<close>; each round reads \<open>bytes\<close> bytes as one big-endian
  number and the loop repeats while that number is \<open>>= range\<close>. The function returns the
  number drawn and the rest of the tape. (\<open>min\<close>, \<open>max\<close> and \<open>range\<close> are \<open>lo\<close>, \<open>hi\<close> and \<open>rng\<close>.)
\<close>

type_synonym byte = "8 word"

fun binary_digits :: "nat \<Rightarrow> nat" where
  "binary_digits k = (if k < 2 then 1 else 1 + binary_digits (k div 2))"

declare binary_digits.simps [simp del]

definition toString2_length :: "int \<Rightarrow> nat" where
  "toString2_length x =
     (if x < 0 then 1 + binary_digits (nat (- x)) else binary_digits (nat x))"

definition bigint_of_bytes :: "byte list \<Rightarrow> int" where
  "bigint_of_bytes bs = foldl (\<lambda>acc b. acc * 256 + uint b) 0 bs"

definition byte_count :: "int \<Rightarrow> nat" where
  "byte_count rng = (toString2_length rng + 7) div 8"

function randomBigInt_loop :: "int \<Rightarrow> byte list \<Rightarrow> (int \<times> byte list) option" where
  "randomBigInt_loop rng tape =
     (if length tape < byte_count rng then None
      else (let result = bigint_of_bytes (take (byte_count rng) tape);
                rest = drop (byte_count rng) tape
            in if result \<ge> rng then randomBigInt_loop rng rest
               else Some (result, rest)))"
  by pat_completeness auto

termination
proof (relation "measure (\<lambda>(rng, tape). length tape)")
  show "wf (measure (\<lambda>(rng, tape). length tape))"
    by simp
next
  fix rng :: int and tape :: "byte list" and result rest
  assume enough: "\<not> length tape < byte_count rng"
    and rest: "rest = drop (byte_count rng) tape"
  have "1 \<le> binary_digits k" for k
    by (subst binary_digits.simps) simp
  then have "1 \<le> toString2_length rng"
    by (simp add: toString2_length_def)
  then have "0 < byte_count rng"
    by (simp add: byte_count_def)
  with enough rest show "((rng, rest), (rng, tape)) \<in> measure (\<lambda>(rng, tape). length tape)"
    by simp
qed

declare randomBigInt_loop.simps [simp del]

definition randomBigInt :: "int \<Rightarrow> int \<Rightarrow> byte list \<Rightarrow> (int \<times> byte list) option" where
  "randomBigInt lo hi tape =
     (case randomBigInt_loop (hi - lo + 1) tape of
        None \<Rightarrow> None
      | Some (result, rest) \<Rightarrow> Some (lo + result, rest))"

subsection \<open>Keys and key generation\<close>

text \<open>
  The interfaces of the source become records. Several interfaces share field names
  (\<open>n\<close>, \<open>nSquared\<close>, \<open>lambda\<close>, \<open>mu\<close>, ...), so each field carries a prefix for its
  interface: \<open>pk_\<close> for \<open>PaillierPublicKey\<close>, \<open>sk_\<close> for \<open>PaillierPrivateKey\<close>, \<open>ks_\<close> for
  \<open>KeyGenerationSteps\<close>, \<open>kp_\<close> for \<open>PaillierKeyPair\<close>, \<open>er_\<close> for \<open>EncryptionResult\<close> and
  \<open>ds_\<close> for \<open>DecryptionSteps\<close>.
\<close>

record PaillierPublicKey =
  pk_n :: int
  pk_nSquared :: int
  pk_g :: int

record PaillierPrivateKey =
  sk_lambda :: int
  sk_mu :: int
  sk_n :: int
  sk_nSquared :: int

record KeyGenerationSteps =
  ks_p :: int
  ks_q :: int
  ks_n :: int
  ks_nSquared :: int
  ks_g :: int
  ks_pMinus1 :: int
  ks_qMinus1 :: int
  ks_lambda :: int
  ks_gLambda :: int
  ks_lOfGLambda :: int
  ks_mu :: int

record PaillierKeyPair =
  kp_publicKey :: PaillierPublicKey
  kp_privateKey :: PaillierPrivateKey
  kp_steps :: KeyGenerationSteps

definition isValidPaillierPair :: "int \<Rightarrow> int \<Rightarrow> error + bool" where
  "isValidPaillierPair p q =
     (if p = q then Inr False
      else (let n = p * q
            in case lcm_big (p - 1) (q - 1) of
                 Inl e \<Rightarrow> Inl e
               | Inr lambda \<Rightarrow> Inr (gcd_big n lambda = 1)))"

definition generateKeyPair :: "int \<Rightarrow> int \<Rightarrow> error + PaillierKeyPair" where
  "generateKeyPair p q =
     (let n = p * q;
          nSquared = n * n;
          g = n + 1;
          pMinus1 = p - 1;
          qMinus1 = q - 1
      in case lcm_big pMinus1 qMinus1 of
           Inl e \<Rightarrow> Inl e
         | Inr lambda \<Rightarrow>
             if gcd_big n lambda \<noteq> 1
             then Inl (InvalidPrimePair n lambda (gcd_big n lambda))
             else (case modPow g lambda nSquared of
                     Inl e \<Rightarrow> Inl e
                   | Inr gLambda \<Rightarrow>
                       (case L gLambda n of
                          Inl e \<Rightarrow> Inl e
                        | Inr lOfGLambda \<Rightarrow>
                            (case modInverse lOfGLambda n of
                               Inl e \<Rightarrow> Inl e
                             | Inr mu \<Rightarrow>
                                 Inr \<lparr> kp_publicKey =
                                         \<lparr> pk_n = n, pk_nSquared = nSquared, pk_g = g \<rparr>,
                                       kp_privateKey =
                                         \<lparr> sk_lambda = lambda, sk_mu = mu, sk_n = n,
                                           sk_nSquared = nSquared \<rparr>,
                                       kp_steps =
                                         \<lparr> ks_p = p, ks_q = q, ks_n = n,
                                           ks_nSquared = nSquared, ks_g = g,
                                           ks_pMinus1 = pMinus1, ks_qMinus1 = qMinus1,
                                           ks_lambda = lambda, ks_gLambda = gLambda,
                                           ks_lOfGLambda = lOfGLambda, ks_mu = mu \<rparr> \<rparr>))))"

subsection \<open>Encryption and decryption\<close>

record EncryptionResult =
  er_ciphertext :: int
  er_r :: int

text \<open>
  The sampling loop of \<open>encrypt\<close>: \<open>do { r = randomBigInt(2n, n - 1n) } while (gcd(r, n) !== 1n)\<close>.
  Each round consumes at least one byte of the tape.
\<close>

function encrypt_loop :: "int \<Rightarrow> byte list \<Rightarrow> int option" where
  "encrypt_loop n tape =
     (case randomBigInt 2 (n - 1) tape of
        None \<Rightarrow> None
      | Some (r, rest) \<Rightarrow> if gcd_big r n \<noteq> 1 then encrypt_loop n rest else Some r)"
  by pat_completeness auto
termination
proof (relation "measure (\<lambda>(n, tape). length tape)")
  show "wf (measure (\<lambda>(n, tape). length tape))"
    by simp
next
  fix n :: int and tape :: "byte list" and x r rest
  assume draw: "randomBigInt 2 (n - 1) tape = Some x" "(r, rest) = x"
  have shorter: "length rest' < length tape'"
    if "randomBigInt_loop rng tape' = Some (v, rest')" for rng tape' v rest'
    using that
  proof (induction rng tape' rule: randomBigInt_loop.induct)
    case (1 rng tape')
    have "1 \<le> binary_digits k" for k
      by (subst binary_digits.simps) simp
    then have "1 \<le> toString2_length rng"
      by (simp add: toString2_length_def)
    then have pos: "0 < byte_count rng"
      by (simp add: byte_count_def)
    from "1.prems" have enough: "\<not> length tape' < byte_count rng"
      by (subst (asm) randomBigInt_loop.simps) (simp split: if_splits)
    show ?case
    proof (cases "bigint_of_bytes (take (byte_count rng) tape') \<ge> rng")
      case True
      with "1.prems" enough
      have again: "randomBigInt_loop rng (drop (byte_count rng) tape') = Some (v, rest')"
        by (subst (asm) randomBigInt_loop.simps) (simp add: Let_def)
      from "1.IH" [OF enough refl refl True again] show ?thesis
        by simp
    next
      case False
      with "1.prems" enough have "rest' = drop (byte_count rng) tape'"
        by (subst (asm) randomBigInt_loop.simps) (simp add: Let_def)
      with pos enough show ?thesis
        by simp
    qed
  qed
  from draw shorter show "((n, rest), (n, tape)) \<in> measure (\<lambda>(n, tape). length tape)"
    by (auto simp: randomBigInt_def split: option.splits)
qed

declare encrypt_loop.simps [simp del]

definition encrypt :: "int \<Rightarrow> PaillierPublicKey \<Rightarrow> byte list \<Rightarrow> (error + EncryptionResult) option" where
  "encrypt message publicKey tape =
     (let n = pk_n publicKey; nSquared = pk_nSquared publicKey; g = pk_g publicKey
      in case encrypt_loop n tape of
           None \<Rightarrow> None
         | Some r \<Rightarrow>
             Some (case modPow g message nSquared of
                     Inl e \<Rightarrow> Inl e
                   | Inr gm \<Rightarrow>
                       (case modPow r n nSquared of
                          Inl e \<Rightarrow> Inl e
                        | Inr rn \<Rightarrow>
                            (case bigint_rem (gm * rn) nSquared of
                               Inl e \<Rightarrow> Inl e
                             | Inr ciphertext \<Rightarrow>
                                 Inr \<lparr> er_ciphertext = ciphertext, er_r = r \<rparr>))))"

record DecryptionSteps =
  ds_ciphertext :: int
  ds_lambda :: int
  ds_nSquared :: int
  ds_cLambda :: int
  ds_n :: int
  ds_lValue :: int
  ds_mu :: int
  ds_lTimesMu :: int
  ds_message :: int

definition decrypt :: "int \<Rightarrow> PaillierPrivateKey \<Rightarrow> error + int" where
  "decrypt ciphertext privateKey =
     (let lambda = sk_lambda privateKey; mu = sk_mu privateKey;
          n = sk_n privateKey; nSquared = sk_nSquared privateKey
      in case modPow ciphertext lambda nSquared of
           Inl e \<Rightarrow> Inl e
         | Inr cLambda \<Rightarrow>
             (case L cLambda n of
                Inl e \<Rightarrow> Inl e
              | Inr lValue \<Rightarrow> bigint_rem (lValue * mu) n))"

definition decryptWithSteps :: "int \<Rightarrow> PaillierPrivateKey \<Rightarrow> error + DecryptionSteps" where
  "decryptWithSteps ciphertext privateKey =
     (let lambda = sk_lambda privateKey; mu = sk_mu privateKey;
          n = sk_n privateKey; nSquared = sk_nSquared privateKey
      in case modPow ciphertext lambda nSquared of
           Inl e \<Rightarrow> Inl e
         | Inr cLambda \<Rightarrow>
             (case L cLambda n of
                Inl e \<Rightarrow> Inl e
              | Inr lValue \<Rightarrow>
                  (let lTimesMu = lValue * mu
                   in case bigint_rem lTimesMu n of
                        Inl e \<Rightarrow> Inl e
                      | Inr message \<Rightarrow>
                          Inr \<lparr> ds_ciphertext = ciphertext, ds_lambda = lambda,
                                ds_nSquared = nSquared, ds_cLambda = cLambda, ds_n = n,
                                ds_lValue = lValue, ds_mu = mu, ds_lTimesMu = lTimesMu,
                                ds_message = message \<rparr>)))"

subsection \<open>Homomorphic operations\<close>

definition homomorphicAdd :: "int \<Rightarrow> int \<Rightarrow> PaillierPublicKey \<Rightarrow> error + int" where
  "homomorphicAdd c1 c2 publicKey = bigint_rem (c1 * c2) (pk_nSquared publicKey)"

definition homomorphicMultiplyScalar :: "int \<Rightarrow> int \<Rightarrow> PaillierPublicKey \<Rightarrow> error + int" where
  "homomorphicMultiplyScalar c scalar publicKey = modPow c scalar (pk_nSquared publicKey)"

text \<open>
  The tally component (\<open>computeHomomorphicSum\<close> of \<open>VoteTally\<close>) folds the ciphertexts of
  the voters who have voted from the left:
  \<open>sum = cs[0]; for (i = 1; i < cs.length; i++) sum = homomorphicAdd(sum, cs[i], publicKey)\<close>.
  On an empty list it returns without a sum (\<open>None\<close>).
\<close>

fun homomorphicSum_loop :: "int \<Rightarrow> int list \<Rightarrow> PaillierPublicKey \<Rightarrow> error + int" where
  "homomorphicSum_loop acc [] publicKey = Inr acc"
| "homomorphicSum_loop acc (c # cs) publicKey =
     (case homomorphicAdd acc c publicKey of
        Inl e \<Rightarrow> Inl e
      | Inr acc' \<Rightarrow> homomorphicSum_loop acc' cs publicKey)"

definition computeHomomorphicSum :: "int list \<Rightarrow> PaillierPublicKey \<Rightarrow> (error + int) option" where
  "computeHomomorphicSum cs publicKey =
     (case cs of
        [] \<Rightarrow> None
      | c # cs' \<Rightarrow> Some (homomorphicSum_loop c cs' publicKey))"

section \<open>Arithmetic of the primitives on non-negative operands\<close>

subsection \<open>Modular exponentiation\<close>

lemma smod_nonneg: "0 \<le> a \<Longrightarrow> 0 < b \<Longrightarrow> a smod b = a mod (b::int)"
  by (simp add: signed_modulo_int_def sgn_if)

lemma sdiv_nonneg: "0 \<le> a \<Longrightarrow> 0 < b \<Longrightarrow> a sdiv b = a div (b::int)"
  by (simp add: signed_divide_int_def sgn_if)

lemma modPow_loop_nonpos: "exp \<le> 0 \<Longrightarrow> modPow_loop result base exp m = result"
  by (subst modPow_loop.simps) simp

lemma modPow_loop_pos:
  "0 \<le> result \<Longrightarrow> 0 \<le> base \<Longrightarrow> 0 < m \<Longrightarrow> 0 < exp \<Longrightarrow>
     modPow_loop result base exp m = (result * base ^ nat exp) mod m"
proof (induction result base exp m rule: modPow_loop.induct)
  case (1 result base exp m)
  let ?result' = "if exp smod 2 = 1 then (result * base) smod m else result"
  let ?base' = "(base * base) smod m"
  have unfold: "modPow_loop result base exp m = modPow_loop ?result' ?base' (exp sdiv 2) m"
    using \<open>0 < exp\<close> by (subst modPow_loop.simps) simp
  have half: "exp sdiv 2 = exp div 2" and par: "exp smod 2 = exp mod 2"
    using \<open>0 < exp\<close> by (simp_all add: sdiv_nonneg smod_nonneg)
  have base': "?base' = (base * base) mod m" and result'_odd: "(result * base) smod m = (result * base) mod m"
    using "1.prems" by (simp_all add: smod_nonneg)
  have nonneg: "0 \<le> ?result'" "0 \<le> ?base'"
    using "1.prems" by (simp_all add: base' result'_odd)
  have "int (2 * nat (exp div 2) + nat (exp mod 2)) = exp"
    using \<open>0 < exp\<close> by (simp add: pos_imp_zdiv_nonneg_iff)
  then have exp_split: "nat exp = 2 * nat (exp div 2) + nat (exp mod 2)"
    by linarith
  show ?case
  proof (cases "exp div 2 = 0")
    case True
    with \<open>0 < exp\<close> have "exp = 1" by presburger
    have "exp smod 2 = 1"
      unfolding par using \<open>exp = 1\<close> by simp
    have "modPow_loop result base exp m = ?result'"
      unfolding unfold using True by (simp add: half modPow_loop_nonpos)
    also have "\<dots> = (result * base) mod m"
      using \<open>exp smod 2 = 1\<close> by (simp add: result'_odd)
    also have "\<dots> = (result * base ^ nat exp) mod m"
      using \<open>exp = 1\<close> by simp
    finally show ?thesis .
  next
    case False
    with \<open>0 < exp\<close> have pos: "0 < exp sdiv 2"
      unfolding half by presburger
    have "modPow_loop ?result' ?base' (exp sdiv 2) m = (?result' * ?base' ^ nat (exp sdiv 2)) mod m"
      using "1.IH" [OF \<open>0 < exp\<close> nonneg \<open>0 < m\<close> pos] .
    also have "\<dots> = (?result' * (base * base) ^ nat (exp div 2)) mod m"
      unfolding base' half by (metis mod_mult_right_eq power_mod)
    also have "\<dots> = (result * base ^ nat (exp mod 2) * (base * base) ^ nat (exp div 2)) mod m"
    proof (cases "exp mod 2 = 1")
      case True
      then show ?thesis
        by (simp add: par result'_odd mod_mult_left_eq)
    next
      case False
      then have "exp mod 2 = 0" by presburger
      then show ?thesis
        by (simp add: par)
    qed
    also have "result * base ^ nat (exp mod 2) * (base * base) ^ nat (exp div 2) = result * base ^ nat exp"
    proof -
      have "base ^ nat exp = base ^ (2 * nat (exp div 2) + nat (exp mod 2))"
        using exp_split by simp
      also have "\<dots> = base ^ nat (exp mod 2) * (base * base) ^ nat (exp div 2)"
        by (simp add: power_add power_mult power2_eq_square)
      finally show ?thesis
        by (simp add: mult.assoc)
    qed
    finally show ?thesis
      using unfold by simp
  qed
qed

lemma modPow_pos:
  assumes "0 \<le> base" "0 < m" "0 < exp"
  shows "modPow base exp m = Inr (base ^ nat exp mod m)"
proof -
  have "modPow base exp m = Inr (modPow_loop 1 (base mod m) exp m)"
    using assms by (simp add: modPow_def bigint_rem_def smod_nonneg)
  also have "modPow_loop 1 (base mod m) exp m = (1 * (base mod m) ^ nat exp) mod m"
    using assms by (intro modPow_loop_pos) simp_all
  also have "\<dots> = base ^ nat exp mod m"
    by (simp add: power_mod)
  finally show ?thesis .
qed

lemma modPow_nonpos: "m \<noteq> 0 \<Longrightarrow> exp \<le> 0 \<Longrightarrow> modPow base exp m = Inr 1"
  by (simp add: modPow_def bigint_rem_def modPow_loop_nonpos)

lemma modPow_zero_exponent: "m \<noteq> 0 \<Longrightarrow> modPow base 0 m = Inr 1"
  by (simp add: modPow_nonpos)

lemma modPow_correct:
  assumes "0 \<le> base" "2 \<le> m" "0 \<le> exp"
  shows "modPow base exp m = Inr (base ^ nat exp mod m)"
proof (cases "exp = 0")
  case True
  with assms show ?thesis by (simp add: modPow_nonpos)
next
  case False
  with assms show ?thesis by (simp add: modPow_pos)
qed

subsection \<open>Greatest common divisor, least common multiple and modular inverse\<close>

lemma gcd_big_nonneg: "0 \<le> a \<Longrightarrow> 0 \<le> b \<Longrightarrow> gcd_big a b = gcd a b"
proof (induction a b rule: gcd_big.induct)
  case (1 a b)
  show ?case
  proof (cases "b = 0")
    case True
    with "1.prems" show ?thesis
      by (subst gcd_big.simps) simp
  next
    case False
    with "1.prems" have "0 < b" by simp
    with "1.prems" have rem: "a smod b = a mod b"
      by (simp add: smod_nonneg)
    have "gcd_big a b = gcd_big b (a smod b)"
      using False by (subst gcd_big.simps) simp
    also have "\<dots> = gcd b (a mod b)"
      using "1.IH" [OF False] \<open>0 < b\<close> unfolding rem by simp
    also have "\<dots> = gcd a b"
      by (simp add: gcd_red_int [symmetric])
    finally show ?thesis .
  qed
qed

lemma lcm_big_nonneg:
  assumes "0 \<le> a" "0 \<le> b" "a \<noteq> 0 \<or> b \<noteq> 0"
  shows "lcm_big a b = Inr (lcm a b)"
proof -
  have pos: "0 < gcd a b"
    using assms by (simp add: less_le)
  have "(a * b) sdiv gcd a b = (a * b) div gcd a b"
    using assms pos by (intro sdiv_nonneg) simp_all
  also have "\<dots> = lcm a b"
    using assms by (simp add: lcm_altdef_int)
  finally show ?thesis
    using assms pos by (simp add: lcm_big_def gcd_big_nonneg bigint_div_def)
qed

lemma extendedGcd_nonneg:
  "0 \<le> a \<Longrightarrow> 0 \<le> b \<Longrightarrow> extendedGcd a b = (g, x, y) \<Longrightarrow> g = gcd a b \<and> a * x + b * y = g"
proof (induction a b arbitrary: g x y rule: extendedGcd.induct)
  case (1 a b)
  show ?case
  proof (cases "a = 0")
    case True
    with "1.prems" show ?thesis
      by (subst (asm) extendedGcd.simps) simp
  next
    case False
    with "1.prems" have "0 < a" by simp
    with "1.prems" have rem: "b smod a = b mod a" and quot: "b sdiv a = b div a"
      by (simp_all add: smod_nonneg sdiv_nonneg)
    obtain g' x1 y1 where rec: "extendedGcd (b mod a) a = (g', x1, y1)"
      by (cases "extendedGcd (b mod a) a") auto
    from "1.prems"(3) False rec have res: "g = g'" "x = y1 - (b div a) * x1" "y = x1"
      by (subst (asm) extendedGcd.simps, simp add: rem quot)+
    have "g' = gcd (b mod a) a \<and> (b mod a) * x1 + a * y1 = g'"
      using "1.IH" [OF False _ _ rec [folded rem]] \<open>0 < a\<close> unfolding rem by simp
    moreover have "gcd (b mod a) a = gcd a b"
      by (metis gcd.commute gcd_red_int)
    ultimately have g': "g' = gcd a b" and bez: "(b mod a) * x1 + a * y1 = g'"
      by simp_all
    have "a * x + b * y = a * y1 + (b - a * (b div a)) * x1"
      unfolding res by (simp add: algebra_simps)
    also have "b - a * (b div a) = b mod a"
      by (simp add: minus_mult_div_eq_mod)
    also have "a * y1 + (b mod a) * x1 = g'"
      using bez by (simp add: add.commute)
    finally have "a * x + b * y = g'" .
    with g' res(1) show ?thesis
      by simp
  qed
qed

lemma smod_mod_eq: "0 < m \<Longrightarrow> (x smod m) mod m = x mod (m::int)"
proof -
  have "x = x sdiv m * m + x smod m"
    by (simp add: sdiv_mult_smod_eq)
  then have "x mod m = (x sdiv m * m + x smod m) mod m"
    by simp
  then show ?thesis
    by simp
qed

lemma smod_bounds: "0 < m \<Longrightarrow> - m < x smod m \<and> x smod m < (m::int)"
  using smod_int_range [of m x] by auto

lemma normalise_residue: "0 < m \<Longrightarrow> ((x smod m) + m) smod m = x mod (m::int)"
proof -
  assume "0 < m"
  then have "0 \<le> x smod m + m"
    using smod_bounds [of m x] by simp
  then have "((x smod m) + m) smod m = ((x smod m) + m) mod m"
    using \<open>0 < m\<close> by (simp add: smod_nonneg)
  also have "\<dots> = x mod m"
    using \<open>0 < m\<close> by (simp add: smod_mod_eq)
  finally show ?thesis .
qed

lemma modInverse_nonneg:
  assumes "0 \<le> a" "0 < m"
  shows "modInverse a m =
           (if gcd a m \<noteq> 1 then Inl NoInverse
            else Inr (fst (snd (extendedGcd (a mod m) m)) mod m))"
    and "gcd a m = 1 \<Longrightarrow> (a * (fst (snd (extendedGcd (a mod m) m)) mod m)) mod m = 1 mod m"
proof -
  obtain g x y where eg: "extendedGcd (a mod m) m = (g, x, y)"
    by (cases "extendedGcd (a mod m) m") auto
  have "0 \<le> a mod m"
    using assms by simp
  from extendedGcd_nonneg [OF this _ eg] assms
  have "g = gcd (a mod m) m" and bez: "(a mod m) * x + m * y = g"
    by simp_all
  moreover have "gcd (a mod m) m = gcd a m"
    by (metis gcd.commute gcd_red_int)
  ultimately have g: "g = gcd a m"
    by simp
  show "modInverse a m =
           (if gcd a m \<noteq> 1 then Inl NoInverse
            else Inr (fst (snd (extendedGcd (a mod m) m)) mod m))"
    using assms by (simp add: modInverse_def bigint_rem_def smod_nonneg eg g normalise_residue)
  show "(a * (fst (snd (extendedGcd (a mod m) m)) mod m)) mod m = 1 mod m" if "gcd a m = 1"
  proof -
    have "(a * (x mod m)) mod m = ((a mod m) * x) mod m"
      by (metis mod_mult_left_eq mod_mult_right_eq)
    also have "\<dots> = ((a mod m) * x + m * y) mod m"
      by simp
    also have "\<dots> = 1 mod m"
      using bez g that by simp
    finally show ?thesis
      by (simp add: eg)
  qed
qed

section \<open>Primality\<close>

subsection \<open>\<open>isPrime\<close> decides primality\<close>

lemma smod_eq_0_iff_dvd: "0 \<le> n \<Longrightarrow> 0 < i \<Longrightarrow> n smod i = 0 \<longleftrightarrow> i dvd (n::int)"
  by (simp add: smod_nonneg dvd_eq_mod_eq_0)

lemma isPrime_loop_iff:
  "0 < i \<Longrightarrow> isPrime_loop i n \<longleftrightarrow> (\<forall>k::nat. (i + 2 * int k) * (i + 2 * int k) \<le> n \<longrightarrow> \<not> (i + 2 * int k) dvd n)"
proof (induction i n rule: isPrime_loop.induct)
  case (1 i n)
  show ?case
  proof (cases "i * i \<le> n")
    case False
    have "\<not> (i + 2 * int k) * (i + 2 * int k) \<le> n" for k
    proof -
      have "i * i \<le> (i + 2 * int k) * (i + 2 * int k)"
        using \<open>0 < i\<close> by (intro mult_mono) simp_all
      with False show ?thesis by linarith
    qed
    with False show ?thesis
      by (subst isPrime_loop.simps) simp
  next
    case True
    with \<open>0 < i\<close> have "0 \<le> n"
      by (meson mult_nonneg_nonneg less_imp_le order_trans)
    show ?thesis
    proof (cases "i dvd n")
      case dvd: True
      then have "\<not> isPrime_loop i n"
        using True \<open>0 \<le> n\<close> \<open>0 < i\<close> by (subst isPrime_loop.simps) (simp add: smod_eq_0_iff_dvd)
      moreover have "\<not> (\<forall>k::nat. (i + 2 * int k) * (i + 2 * int k) \<le> n \<longrightarrow> \<not> (i + 2 * int k) dvd n)"
        using True dvd by (auto intro: exI [of _ 0])
      ultimately show ?thesis by blast
    next
      case ndvd: False
      then have nz: "n smod i \<noteq> 0"
        using \<open>0 \<le> n\<close> \<open>0 < i\<close> by (simp add: smod_eq_0_iff_dvd)
      have "isPrime_loop i n \<longleftrightarrow> isPrime_loop (i + 2) n"
        using True nz by (subst isPrime_loop.simps) simp
      also have "\<dots> \<longleftrightarrow> (\<forall>k::nat. (i + 2 + 2 * int k) * (i + 2 + 2 * int k) \<le> n \<longrightarrow> \<not> (i + 2 + 2 * int k) dvd n)"
        using "1.IH" [OF True nz] \<open>0 < i\<close> by simp
      also have "\<dots> \<longleftrightarrow> (\<forall>k::nat. (i + 2 * int (Suc k)) * (i + 2 * int (Suc k)) \<le> n \<longrightarrow> \<not> (i + 2 * int (Suc k)) dvd n)"
        by (simp add: algebra_simps)
      also have "\<dots> \<longleftrightarrow> (\<forall>k::nat. (i + 2 * int k) * (i + 2 * int k) \<le> n \<longrightarrow> \<not> (i + 2 * int k) dvd n)"
        (is "?L \<longleftrightarrow> ?R")
      proof
        assume ?R then show ?L by blast
      next
        assume L: ?L
        show ?R
        proof (intro allI impI)
          fix k :: nat
          assume "(i + 2 * int k) * (i + 2 * int k) \<le> n"
          then show "\<not> (i + 2 * int k) dvd n"
            using L ndvd by (cases k) auto
        qed
      qed
      finally show ?thesis .
    qed
  qed
qed

lemma isPrime_iff:
  "isPrime n \<longleftrightarrow> 1 < n \<and> (\<forall>d. 1 < d \<and> d < n \<longrightarrow> \<not> d dvd n)"
proof (cases "n < 4")
  case True
  then consider "n < 2" | "n = 2" | "n = 3" by linarith
  then show ?thesis
  proof cases
    case 1
    then show ?thesis by (simp add: isPrime_def)
  next
    case 2
    then show ?thesis by (auto simp: isPrime_def)
  next
    case 3
    have "\<not> d dvd (3::int)" if "1 < d" "d < 3" for d :: int
    proof -
      from that have "d = 2" by linarith
      then show ?thesis by simp
    qed
    with 3 show ?thesis by (auto simp: isPrime_def)
  qed
next
  case False
  then have n4: "4 \<le> n" by simp
  show ?thesis
  proof (cases "even n")
    case True
    then have "n smod 2 = 0"
      using n4 by (simp add: smod_nonneg)
    then have "\<not> isPrime n"
      using n4 by (simp add: isPrime_def)
    moreover have "\<not> (\<forall>d. 1 < d \<and> d < n \<longrightarrow> \<not> d dvd n)"
      using True n4 by (auto intro!: exI [of _ 2])
    ultimately show ?thesis by blast
  next
    case odd: False
    then have "n smod 2 \<noteq> 0"
      using n4 by (simp add: smod_nonneg odd_iff_mod_2_eq_one)
    then have "isPrime n \<longleftrightarrow> isPrime_loop 3 n"
      using n4 by (simp add: isPrime_def)
    also have "\<dots> \<longleftrightarrow> (\<forall>k::nat. (3 + 2 * int k) * (3 + 2 * int k) \<le> n \<longrightarrow> \<not> (3 + 2 * int k) dvd n)"
      by (rule isPrime_loop_iff) simp
    also have "\<dots> \<longleftrightarrow> (\<forall>d. 1 < d \<and> d < n \<longrightarrow> \<not> d dvd n)" (is "?L \<longleftrightarrow> ?R")
    proof
      assume R: ?R
      show ?L
      proof (intro allI impI)
        fix k :: nat
        let ?d = "3 + 2 * int k"
        assume sq: "?d * ?d \<le> n"
        have "?d < ?d * ?d"
          using mult_strict_left_mono [of 1 "?d" "?d"] by simp
        with sq have "1 < ?d \<and> ?d < n" by linarith
        with R show "\<not> ?d dvd n" by blast
      qed
    next
      assume L: ?L
      show ?R
      proof (intro allI impI notI)
        fix d :: int
        assume d: "1 < d \<and> d < n" and "d dvd n"
        then obtain e where e: "n = d * e" by (auto elim: dvdE)
        have "0 < d * e"
          using e n4 by simp
        with d have "0 < e"
          by (simp add: zero_less_mult_iff)
        moreover have "e \<noteq> 1"
          using d e by auto
        ultimately have "1 < e"
          by linarith
        define m where "m = min d e"
        have m: "1 < m" "m dvd n" "m * m \<le> n"
          using d \<open>1 < e\<close> e unfolding m_def
          by (auto simp: min_def intro: mult_mono)
        have "odd m"
          using odd m(2) dvd_trans by blast
        then have "m \<noteq> 2"
          by auto
        with m(1) have "3 \<le> m"
          by linarith
        have "even (m - 3)"
          using \<open>odd m\<close> by simp
        then have "2 * ((m - 3) div 2) = m - 3"
          by simp
        moreover have "0 \<le> (m - 3) div 2"
          using \<open>3 \<le> m\<close> by simp
        ultimately have "m = 3 + 2 * int (nat ((m - 3) div 2))"
          by simp
        with L m show False by metis
      qed
    qed
    finally show ?thesis
      using n4 by simp
  qed
qed

subsection \<open>Fermat's little theorem\<close>

lemma isPrime_coprime:
  assumes "isPrime p" "\<not> p dvd a"
  shows "coprime p a"
proof -
  from assms(1) have p: "1 < p" and nodiv: "\<And>d. 1 < d \<Longrightarrow> d < p \<Longrightarrow> \<not> d dvd p"
    by (simp_all add: isPrime_iff)
  define d where "d = gcd p a"
  have "d dvd p" "d dvd a" "0 \<le> d"
    by (simp_all add: d_def)
  moreover from p have "d \<noteq> 0"
    by (auto simp: d_def)
  moreover have "d \<le> p"
    using \<open>d dvd p\<close> p by (intro zdvd_imp_le) simp_all
  moreover have "d \<noteq> p"
    using \<open>d dvd a\<close> assms(2) by auto
  ultimately have "d = 1"
    using nodiv [of d] by (cases "1 < d") auto
  then show ?thesis
    by (simp add: d_def coprime_iff_gcd_eq_1)
qed

lemma isPrime_dvd_choose:
  assumes "isPrime p" "0 < k" "k < nat p"
  shows "p dvd int (nat p choose k)"
proof -
  from assms(1) have p: "1 < p"
    by (simp add: isPrime_iff)
  have "k * (nat p choose k) = nat p * ((nat p - 1) choose (k - 1))"
    using assms(2) by (rule times_binomial_minus1_eq)
  then have "int k * int (nat p choose k) = int (nat p) * int ((nat p - 1) choose (k - 1))"
    by (metis of_nat_mult)
  with p have "p dvd int k * int (nat p choose k)"
    by simp
  moreover have "\<not> p dvd int k"
    using assms(2,3) by (intro zdvd_not_zless) simp_all
  with assms(1) have "coprime p (int k)"
    by (rule isPrime_coprime)
  ultimately show ?thesis
    by (simp add: coprime_dvd_mult_right_iff)
qed

lemma fermat_step:
  assumes "isPrime p"
  shows "p dvd (a + 1) ^ nat p - (a ^ nat p + 1)"
proof -
  from assms have p: "1 < p"
    by (simp add: isPrime_iff)
  define P where "P = nat p"
  define f where "f k = int (P choose k) * a ^ k" for k
  have P: "0 < P" "p = int P"
    using p by (simp_all add: P_def)
  have "(a + 1) ^ P = (\<Sum>k\<le>P. f k)"
    by (simp add: binomial_ring f_def)
  also have "\<dots> = f 0 + (\<Sum>k = Suc 0..P. f k)"
    by (simp add: atMost_atLeast0 sum.atLeast_Suc_atMost)
  also have "(\<Sum>k = Suc 0..P. f k) = (\<Sum>k = Suc 0..<P. f k) + f P"
  proof -
    have "(\<Sum>k = Suc 0..P. f k) = (\<Sum>k = Suc 0..<Suc P. f k)"
      by (simp only: atLeastLessThanSuc_atLeastAtMost)
    also have "\<dots> = (\<Sum>k = Suc 0..<P. f k) + f P"
      using P(1) by (intro sum.atLeastLessThan_Suc) simp
    finally show ?thesis .
  qed
  finally have "(a + 1) ^ P - (a ^ P + 1) = (\<Sum>k = Suc 0..<P. f k)"
    by (simp add: f_def)
  moreover have "p dvd (\<Sum>k = Suc 0..<P. f k)"
  proof (rule dvd_sum)
    fix k assume "k \<in> {Suc 0..<P}"
    then have "p dvd int (nat p choose k)"
      using assms by (intro isPrime_dvd_choose) (simp_all add: P_def)
    then show "p dvd f k"
      by (simp add: f_def P_def)
  qed
  ultimately show ?thesis
    by (simp add: P_def)
qed

lemma fermat_little_nat:
  assumes "isPrime p"
  shows "p dvd int k ^ nat p - int k"
proof (induction k)
  case 0
  from assms have "0 < nat p"
    by (simp add: isPrime_iff)
  then show ?case by (simp add: zero_power)
next
  case (Suc k)
  have "int (Suc k) ^ nat p - int (Suc k)
      = ((int k + 1) ^ nat p - (int k ^ nat p + 1)) + (int k ^ nat p - int k)"
    by (simp add: add.commute)
  with fermat_step [OF assms, of "int k"] Suc show ?case
    by (simp only: dvd_add)
qed

lemma fermat_little:
  assumes "isPrime p" "0 \<le> a" "\<not> p dvd a"
  shows "a ^ nat (p - 1) mod p = 1"
proof -
  from assms(1) have p: "1 < p"
    by (simp add: isPrime_iff)
  have "p dvd a ^ nat p - a"
    using fermat_little_nat [OF assms(1), of "nat a"] assms(2) by simp
  moreover have "nat p = Suc (nat (p - 1))"
    using p by simp
  ultimately have "p dvd a * (a ^ nat (p - 1) - 1)"
    by (simp add: algebra_simps)
  moreover have "coprime p a"
    using assms(1,3) by (rule isPrime_coprime)
  ultimately have "p dvd a ^ nat (p - 1) - 1"
    by (simp add: coprime_dvd_mult_right_iff)
  then have "a ^ nat (p - 1) mod p = 1 mod p"
    by (simp add: mod_eq_dvd_iff)
  with p show ?thesis
    by simp
qed

section \<open>Arithmetic modulo \<open>n\<close> and \<open>n\<^sup>2\<close>\<close>

lemma one_plus_multiple_power:
  "(1 + a * n) ^ k mod (n * n) = (1 + int k * a * n) mod (n * (n::int))"
proof (induction k)
  case 0
  show ?case by simp
next
  case (Suc k)
  have "(1 + a * n) ^ Suc k mod (n * n) = ((1 + a * n) ^ k mod (n * n) * (1 + a * n)) mod (n * n)"
    by (simp only: power_Suc2 mod_mult_left_eq)
  also have "\<dots> = ((1 + int k * a * n) * (1 + a * n)) mod (n * n)"
    by (simp only: Suc.IH mod_mult_left_eq)
  also have "(1 + int k * a * n) * (1 + a * n) = (1 + int (Suc k) * a * n) + (int k * a * a) * (n * n)"
    by (simp add: algebra_simps)
  also have "\<dots> mod (n * n) = (1 + int (Suc k) * a * n) mod (n * n)"
    by (simp only: mod_mult_self1)
  finally show ?case .
qed

lemma isPrime_distinct_coprime:
  assumes "isPrime p" "isPrime q" "p \<noteq> q"
  shows "coprime p q"
proof (rule isPrime_coprime [OF assms(1)])
  from assms(1,2) have p: "1 < p" and q: "1 < q"
    and nodiv: "\<And>d. 1 < d \<Longrightarrow> d < q \<Longrightarrow> \<not> d dvd q"
    by (simp_all add: isPrime_iff)
  show "\<not> p dvd q"
  proof
    assume "p dvd q"
    with q have "p \<le> q"
      by (intro zdvd_imp_le) simp_all
    with assms(3) have "p < q" by simp
    with nodiv [OF p] \<open>p dvd q\<close> show False by simp
  qed
qed

lemma power_lambda_mod_prime:
  assumes "isPrime p" "0 \<le> r" "\<not> p dvd r" "p - 1 dvd l" "0 \<le> l"
  shows "r ^ nat l mod p = 1"
proof -
  from assms(1) have p: "1 < p"
    by (simp add: isPrime_iff)
  from assms(4) obtain j where j: "l = (p - 1) * j" ..
  with assms(5) p have "0 \<le> j"
    by (simp add: zero_le_mult_iff)
  with j p have "nat l = nat (p - 1) * nat j"
    by (simp add: nat_mult_distrib)
  then have "r ^ nat l mod p = (r ^ nat (p - 1) mod p) ^ nat j mod p"
    by (simp add: power_mult power_mod)
  also have "\<dots> = 1 ^ nat j mod p"
    by (simp only: fermat_little [OF assms(1-3)])
  finally show ?thesis
    using p by simp
qed

lemma power_lambda_mod_n:
  assumes "isPrime p" "isPrime q" "p \<noteq> q" "0 \<le> r" "coprime r (p * q)"
  shows "r ^ nat (lcm (p - 1) (q - 1)) mod (p * q) = 1"
proof -
  from assms(1,2) have p: "1 < p" and q: "1 < q"
    by (simp_all add: isPrime_iff)
  let ?l = "lcm (p - 1) (q - 1)"
  have l: "0 \<le> ?l" by simp
  from assms(5) have "coprime r p" "coprime r q"
    by simp_all
  then have ndvd: "\<not> p dvd r" "\<not> q dvd r"
    using p q coprime_common_divisor [of r p p] coprime_common_divisor [of r q q]
    by auto
  have "r ^ nat ?l mod p = 1" "r ^ nat ?l mod q = 1"
    using assms(1,2,4) ndvd l by (auto intro!: power_lambda_mod_prime)
  then have "p dvd r ^ nat ?l - 1" "q dvd r ^ nat ?l - 1"
    using p q by (simp_all add: mod_eq_dvd_iff [symmetric])
  then have "p * q dvd r ^ nat ?l - 1"
    using isPrime_distinct_coprime [OF assms(1-3)] by (intro divides_mult)
  then have "r ^ nat ?l mod (p * q) = 1 mod (p * q)"
    by (simp add: mod_eq_dvd_iff)
  moreover have "1 < p * q"
    using p q by (simp add: less_1_mult)
  ultimately show ?thesis by simp
qed

lemma blinding_vanishes:
  assumes "isPrime p" "isPrime q" "p \<noteq> q" "0 \<le> r" "coprime r (p * q)"
  shows "(r ^ nat (p * q)) ^ nat (lcm (p - 1) (q - 1)) mod (p * q * (p * q)) = 1"
proof -
  from assms(1,2) have p: "1 < p" and q: "1 < q"
    by (simp_all add: isPrime_iff)
  define n where "n = p * q"
  have n: "1 < n"
    using p q by (simp add: n_def less_1_mult)
  let ?l = "lcm (p - 1) (q - 1)"
  have "n dvd r ^ nat ?l - 1"
    using power_lambda_mod_n [OF assms] n by (simp add: mod_eq_dvd_iff [symmetric] n_def)
  then obtain k where "r ^ nat ?l - 1 = n * k" ..
  then have rl: "r ^ nat ?l = 1 + k * n"
    by (simp add: algebra_simps)
  have "(r ^ nat n) ^ nat ?l = (r ^ nat ?l) ^ nat n"
    by (simp add: power_mult [symmetric] mult.commute)
  also have "\<dots> mod (n * n) = (1 + int (nat n) * k * n) mod (n * n)"
    unfolding rl by (rule one_plus_multiple_power)
  also have "int (nat n) * k * n = k * (n * n)"
    using n by simp
  also have "(1 + k * (n * n)) mod (n * n) = 1 mod (n * n)"
    by simp
  also have "\<dots> = 1"
    using n by (simp add: less_1_mult)
  finally show ?thesis
    by (simp add: n_def)
qed

lemma linear_mod_square:
  assumes "2 \<le> n"
  shows "(1 + t * n) mod (n * n) = 1 + (t mod n) * (n::int)"
proof -
  define d m where "d = t div n" and "m = t mod n"
  have "t = d * n + m"
    by (simp add: d_def m_def)
  then have "1 + t * n = (1 + m * n) + d * (n * n)"
    by (simp add: algebra_simps)
  then have "(1 + t * n) mod (n * n) = (1 + m * n) mod (n * n)"
    by (metis mod_mult_self1)
  also have "\<dots> = 1 + m * n"
  proof (rule mod_pos_pos_trivial)
    show "0 \<le> 1 + m * n"
      using assms by (simp add: m_def)
    have "m \<le> n - 1"
      using assms by (simp add: m_def zle_diff1_eq)
    then have "m * n \<le> (n - 1) * n"
      using assms by (intro mult_right_mono) simp_all
    then show "1 + m * n < n * n"
      using assms by (simp add: algebra_simps)
  qed
  finally show ?thesis
    by (simp add: m_def)
qed

lemma L_of_linear:
  assumes "2 \<le> n"
  shows "((1 + t * n) mod (n * n) - 1) sdiv n = t mod (n::int)"
proof -
  have "((1 + t * n) mod (n * n) - 1) sdiv n = ((t mod n) * n) sdiv n"
    using assms by (simp add: linear_mod_square)
  also have "\<dots> = ((t mod n) * n) div n"
    using assms by (intro sdiv_nonneg) simp_all
  finally show ?thesis
    using assms by simp
qed

section \<open>The operations of the cryptosystem\<close>

subsection \<open>Sampling and encryption\<close>

lemma bigint_of_bytes_nonneg: "0 \<le> bigint_of_bytes bs"
proof -
  have "0 \<le> acc \<Longrightarrow> 0 \<le> foldl (\<lambda>acc b. acc * 256 + uint b) acc bs" for acc :: int
    by (induction bs arbitrary: acc) simp_all
  then show ?thesis
    by (simp add: bigint_of_bytes_def)
qed

lemma randomBigInt_loop_range:
  "randomBigInt_loop rng tape = Some (v, rest) \<Longrightarrow> 0 \<le> v \<and> v < rng"
proof (induction rng tape rule: randomBigInt_loop.induct)
  case (1 rng tape)
  from "1.prems" have enough: "\<not> length tape < byte_count rng"
    by (subst (asm) randomBigInt_loop.simps) (simp split: if_splits)
  show ?case
  proof (cases "bigint_of_bytes (take (byte_count rng) tape) \<ge> rng")
    case True
    with "1.prems" enough
    have "randomBigInt_loop rng (drop (byte_count rng) tape) = Some (v, rest)"
      by (subst (asm) randomBigInt_loop.simps) (simp add: Let_def)
    from "1.IH" [OF enough refl refl True this] show ?thesis .
  next
    case False
    with "1.prems" enough have "v = bigint_of_bytes (take (byte_count rng) tape)"
      by (subst (asm) randomBigInt_loop.simps) (simp add: Let_def)
    with False show ?thesis
      by (simp add: bigint_of_bytes_nonneg)
  qed
qed

lemma randomBigInt_range:
  "randomBigInt lo hi tape = Some (v, rest) \<Longrightarrow> lo \<le> v \<and> v \<le> hi"
  by (auto simp: randomBigInt_def split: option.splits dest!: randomBigInt_loop_range)

lemma encrypt_loop_props:
  "encrypt_loop n tape = Some r \<Longrightarrow> 2 \<le> r \<and> r \<le> n - 1 \<and> gcd_big r n = 1"
proof (induction n tape rule: encrypt_loop.induct)
  case (1 n tape)
  from "1.prems" obtain r' rest where draw: "randomBigInt 2 (n - 1) tape = Some (r', rest)"
    by (subst (asm) encrypt_loop.simps) (auto split: option.splits)
  show ?case
  proof (cases "gcd_big r' n \<noteq> 1")
    case True
    with "1.prems" draw have "encrypt_loop n rest = Some r"
      by (subst (asm) encrypt_loop.simps) simp
    from "1.IH" [OF draw refl True this] show ?thesis .
  next
    case False
    with "1.prems" draw have "r = r'"
      by (subst (asm) encrypt_loop.simps) simp
    with False randomBigInt_range [OF draw] show ?thesis
      by simp
  qed
qed

lemma encrypt_loop_coprime:
  assumes "encrypt_loop n tape = Some r"
  shows "2 \<le> r" "r < n" "coprime r n"
proof -
  from encrypt_loop_props [OF assms] have r: "2 \<le> r" "r \<le> n - 1" "gcd_big r n = 1"
    by simp_all
  then show "2 \<le> r" "r < n"
    by simp_all
  with r(3) have "gcd r n = 1"
    by (simp add: gcd_big_nonneg)
  then show "coprime r n"
    by (simp add: coprime_iff_gcd_eq_1)
qed

text \<open>Every value below the range is drawn on some tape.\<close>

lemma binary_digits_bound: "k < 2 ^ binary_digits k"
proof (induction k rule: binary_digits.induct)
  case (1 k)
  show ?case
  proof (cases "k < 2")
    case True
    then show ?thesis
      by (subst binary_digits.simps) simp
  next
    case False
    then have "k div 2 < 2 ^ binary_digits (k div 2)"
      by (rule "1.IH")
    then have "k < 2 * 2 ^ binary_digits (k div 2)"
      by linarith
    with False show ?thesis
      by (subst binary_digits.simps) simp
  qed
qed

lemma range_below_byte_width:
  assumes "0 < rng"
  shows "rng < 256 ^ byte_count rng"
proof -
  have "nat rng < 2 ^ binary_digits (nat rng)"
    by (rule binary_digits_bound)
  also have "binary_digits (nat rng) = toString2_length rng"
    using assms by (simp add: toString2_length_def)
  also have "(2::nat) ^ toString2_length rng \<le> 2 ^ (8 * byte_count rng)"
    by (intro power_increasing) (simp_all add: byte_count_def)
  also have "(2::nat) ^ (8 * byte_count rng) = 256 ^ byte_count rng"
    by (simp add: power_mult)
  finally have "int (nat rng) < int (256 ^ byte_count rng)"
    by (simp only: of_nat_less_iff)
  with assms show ?thesis
    by simp
qed

lemma bigint_of_bytes_snoc:
  "bigint_of_bytes (bs @ [b]) = bigint_of_bytes bs * 256 + uint b"
  by (simp add: bigint_of_bytes_def)

lemma bytes_of_every_value:
  "0 \<le> k \<Longrightarrow> k < 256 ^ w \<Longrightarrow> \<exists>bs. length bs = w \<and> bigint_of_bytes bs = k"
proof (induction w arbitrary: k)
  case 0
  then have "k = 0" by simp
  then show ?case
    by (simp add: bigint_of_bytes_def)
next
  case (Suc w)
  from Suc.prems have "0 \<le> k div 256" "k div 256 < 256 ^ w"
    by (simp_all add: div_less_iff_less_mult)
  with Suc.IH obtain bs where bs: "length bs = w" "bigint_of_bytes bs = k div 256"
    by blast
  define b :: byte where "b = word_of_int (k mod 256)"
  have "uint b = k mod 256"
    by (simp add: b_def uint_word_of_int take_bit_eq_mod)
  with bs have "length (bs @ [b]) = Suc w \<and> bigint_of_bytes (bs @ [b]) = k"
    by (simp add: bigint_of_bytes_snoc)
  then show ?case
    by blast
qed

lemma randomBigInt_loop_first_round:
  assumes "length bs = byte_count rng" "bigint_of_bytes bs < rng"
  shows "randomBigInt_loop rng (bs @ rest) = Some (bigint_of_bytes bs, rest)"
  using assms by (subst randomBigInt_loop.simps) simp

lemma encrypt_loop_draws:
  assumes "2 \<le> r" "r < n" "gcd r n = 1"
  shows "\<exists>tape. encrypt_loop n tape = Some r"
proof -
  have rng: "0 < n - 1 - 2 + 1" "r - 2 < n - 1 - 2 + 1" "0 \<le> r - 2"
    using assms by simp_all
  from range_below_byte_width [OF rng(1)] rng(2)
  have "r - 2 < 256 ^ byte_count (n - 1 - 2 + 1)"
    by linarith
  with rng(3) obtain bs where bs: "length bs = byte_count (n - 1 - 2 + 1)" "bigint_of_bytes bs = r - 2"
    using bytes_of_every_value by blast
  with rng(2) have "randomBigInt_loop (n - 1 - 2 + 1) (bs @ []) = Some (r - 2, [])"
    using randomBigInt_loop_first_round [of bs "n - 1 - 2 + 1" "[]"] by simp
  then have "randomBigInt 2 (n - 1) bs = Some (r, [])"
    by (simp add: randomBigInt_def)
  moreover have "gcd_big r n = 1"
    using assms by (simp add: gcd_big_nonneg)
  ultimately have "encrypt_loop n bs = Some r"
    by (subst encrypt_loop.simps) simp
  then show ?thesis ..
qed

text \<open>What \<open>encrypt\<close> returns once the loop has drawn \<open>r\<close>.\<close>

lemma encrypt_ciphertext:
  assumes "encrypt m publicKey tape = Some res"
    and "0 \<le> pk_g publicKey" "0 \<le> m" "2 \<le> pk_nSquared publicKey"
  obtains r where "encrypt_loop (pk_n publicKey) tape = Some r"
    "2 \<le> r" "r < pk_n publicKey" "coprime r (pk_n publicKey)"
    "res = Inr \<lparr> er_ciphertext =
             (pk_g publicKey ^ nat m * r ^ nat (pk_n publicKey)) mod pk_nSquared publicKey,
           er_r = r \<rparr>"
proof -
  from assms(1) obtain r where r: "encrypt_loop (pk_n publicKey) tape = Some r"
    by (auto simp: encrypt_def Let_def split: option.splits)
  note rc = encrypt_loop_coprime [OF r]
  have gm: "modPow (pk_g publicKey) m (pk_nSquared publicKey)
              = Inr (pk_g publicKey ^ nat m mod pk_nSquared publicKey)"
    using assms(2-4) by (intro modPow_correct)
  have rn: "modPow r (pk_n publicKey) (pk_nSquared publicKey)
              = Inr (r ^ nat (pk_n publicKey) mod pk_nSquared publicKey)"
    using rc(1,2) assms(4) by (intro modPow_correct) simp_all
  have "((pk_g publicKey ^ nat m mod pk_nSquared publicKey)
          * (r ^ nat (pk_n publicKey) mod pk_nSquared publicKey)) smod pk_nSquared publicKey
        = (pk_g publicKey ^ nat m * r ^ nat (pk_n publicKey)) mod pk_nSquared publicKey"
    using assms(4) by (simp add: smod_nonneg mod_mult_eq)
  with assms(1,4) r gm rn
  have "res = Inr \<lparr> er_ciphertext =
             (pk_g publicKey ^ nat m * r ^ nat (pk_n publicKey)) mod pk_nSquared publicKey,
           er_r = r \<rparr>"
    by (simp add: encrypt_def Let_def bigint_rem_def)
  with r rc show ?thesis
    by (rule that)
qed

text \<open>Every admissible blinding factor is the one \<open>encrypt\<close> uses on some tape.\<close>

lemma encrypt_draws:
  assumes "2 \<le> r" "r < pk_n publicKey" "gcd r (pk_n publicKey) = 1"
    and "0 \<le> pk_g publicKey" "0 \<le> m" "2 \<le> pk_nSquared publicKey"
  shows "\<exists>tape enc. encrypt m publicKey tape = Some (Inr enc) \<and> er_r enc = r"
proof -
  from assms(1-3) have "\<exists>tape. encrypt_loop (pk_n publicKey) tape = Some r"
    by (rule encrypt_loop_draws)
  then obtain tape where tape: "encrypt_loop (pk_n publicKey) tape = Some r" ..
  then have "encrypt m publicKey tape \<noteq> None"
    by (simp add: encrypt_def Let_def)
  then obtain res where enc: "encrypt m publicKey tape = Some res"
    by blast
  from encrypt_ciphertext [OF enc assms(4-6)]
  obtain r' c where "encrypt_loop (pk_n publicKey) tape = Some r'"
    and "res = Inr \<lparr> er_ciphertext = c, er_r = r' \<rparr>"
    by blast
  with tape enc
  have "encrypt m publicKey tape = Some (Inr \<lparr> er_ciphertext = c, er_r = r \<rparr>)"
    by simp
  then show ?thesis
    by (intro exI [of _ tape] exI [of _ "\<lparr> er_ciphertext = c, er_r = r \<rparr>"]) simp
qed

subsection \<open>Key generation\<close>

lemma generateKeyPair_unfold:
  assumes "2 \<le> p" "2 \<le> q"
  shows "generateKeyPair p q =
     (if gcd (p * q) (lcm (p - 1) (q - 1)) \<noteq> 1
      then Inl (InvalidPrimePair (p * q) (lcm (p - 1) (q - 1)) (gcd (p * q) (lcm (p - 1) (q - 1))))
      else Inr \<lparr> kp_publicKey =
                  \<lparr> pk_n = p * q, pk_nSquared = p * q * (p * q), pk_g = p * q + 1 \<rparr>,
                kp_privateKey =
                  \<lparr> sk_lambda = lcm (p - 1) (q - 1),
                    sk_mu = fst (snd (extendedGcd (lcm (p - 1) (q - 1) mod (p * q)) (p * q))) mod (p * q),
                    sk_n = p * q, sk_nSquared = p * q * (p * q) \<rparr>,
                kp_steps =
                  \<lparr> ks_p = p, ks_q = q, ks_n = p * q, ks_nSquared = p * q * (p * q),
                    ks_g = p * q + 1, ks_pMinus1 = p - 1, ks_qMinus1 = q - 1,
                    ks_lambda = lcm (p - 1) (q - 1),
                    ks_gLambda = (1 + lcm (p - 1) (q - 1) * (p * q)) mod (p * q * (p * q)),
                    ks_lOfGLambda = lcm (p - 1) (q - 1) mod (p * q),
                    ks_mu = fst (snd (extendedGcd (lcm (p - 1) (q - 1) mod (p * q)) (p * q))) mod (p * q) \<rparr> \<rparr>)"
proof -
  define n l where "n = p * q" and "l = lcm (p - 1) (q - 1)"
  have n: "4 \<le> n"
    using assms mult_mono [of 2 p 2 q] by (simp add: n_def)
  have l: "0 < l"
    using assms by (simp add: l_def less_le)
  have n2: "2 \<le> n * n"
    using n mult_mono [of 4 n 4 n] by simp
  have lcm: "lcm_big (p - 1) (q - 1) = Inr l"
    using assms by (simp add: lcm_big_nonneg l_def)
  have gcd: "gcd_big n l = gcd n l"
    using n l by (simp add: gcd_big_nonneg)
  have "modPow (n + 1) l (n * n) = Inr ((1 + 1 * n) ^ nat l mod (n * n))"
    using n l n2 by (simp add: modPow_correct add.commute)
  also have "(1 + 1 * n) ^ nat l mod (n * n) = (1 + l * n) mod (n * n)"
    using l by (simp only: one_plus_multiple_power) simp
  finally have gLambda: "modPow (n + 1) l (n * n) = Inr ((1 + l * n) mod (n * n))" .
  have lOfGLambda: "L ((1 + l * n) mod (n * n)) n = Inr (l mod n)"
    using n by (simp add: L_def bigint_div_def L_of_linear)
  have "gcd (l mod n) n = gcd n l"
    by (metis gcd.commute gcd_red_int)
  then have mu: "modInverse (l mod n) n =
      (if gcd n l \<noteq> 1 then Inl NoInverse
       else Inr (fst (snd (extendedGcd (l mod n) n)) mod n))"
    using n modInverse_nonneg(1) [of "l mod n" n] by simp
  show ?thesis
    unfolding generateKeyPair_def Let_def n_def [symmetric] l_def [symmetric]
    by (simp add: lcm gcd gLambda lOfGLambda mu)
qed

lemma generateKeyPair_private_key:
  assumes "isPrime p" "isPrime q" "generateKeyPair p q = Inr keys"
  shows "sk_lambda (kp_privateKey keys) = lcm (p - 1) (q - 1)
       \<and> sk_n (kp_privateKey keys) = p * q
       \<and> modInverse (lcm (p - 1) (q - 1)) (p * q) = Inr (sk_mu (kp_privateKey keys))
       \<and> 0 \<le> sk_mu (kp_privateKey keys) \<and> sk_mu (kp_privateKey keys) < p * q
       \<and> (lcm (p - 1) (q - 1) * sk_mu (kp_privateKey keys)) mod (p * q) = 1"
proof -
  from assms(1,2) have p: "2 \<le> p" and q: "2 \<le> q"
    by (simp_all add: isPrime_iff)
  define n l where "n = p * q" and "l = lcm (p - 1) (q - 1)"
  define mu where "mu = fst (snd (extendedGcd (l mod n) n)) mod n"
  have n: "4 \<le> n"
    using p q mult_mono [of 2 p 2 q] by (simp add: n_def)
  from assms(3) have valid: "gcd n l = 1"
    and sk: "kp_privateKey keys = \<lparr> sk_lambda = l, sk_mu = mu, sk_n = n, sk_nSquared = n * n \<rparr>"
    unfolding generateKeyPair_unfold [OF p q] n_def l_def mu_def
    by (auto split: if_splits)
  have "gcd (l mod n) n = 1" "gcd l n = 1"
    using valid by (metis gcd.commute gcd_red_int)+
  have "0 \<le> l" by (simp add: l_def)
  have "modInverse l n = Inr mu"
    using modInverse_nonneg(1) [of l n] \<open>0 \<le> l\<close> n \<open>gcd l n = 1\<close> by (simp add: mu_def)
  moreover have "(l * mu) mod n = 1 mod n"
    using modInverse_nonneg(2) [of l n] \<open>0 \<le> l\<close> n \<open>gcd l n = 1\<close> by (simp add: mu_def)
  moreover have "0 \<le> mu" "mu < n"
    using n by (simp_all add: mu_def)
  ultimately show ?thesis
    using n by (simp add: sk n_def [symmetric] l_def [symmetric])
qed

lemma generateKeyPair_valid:
  assumes "isPrime p" "isPrime q" "gcd (p * q) (lcm (p - 1) (q - 1)) = 1"
  obtains keys mu where "generateKeyPair p q = Inr keys"
    and "kp_publicKey keys = \<lparr> pk_n = p * q, pk_nSquared = p * q * (p * q), pk_g = p * q + 1 \<rparr>"
    and "kp_privateKey keys = \<lparr> sk_lambda = lcm (p - 1) (q - 1), sk_mu = mu, sk_n = p * q,
                                  sk_nSquared = p * q * (p * q) \<rparr>"
    and "0 \<le> mu" "(lcm (p - 1) (q - 1) * mu) mod (p * q) = 1"
proof -
  from assms(1,2) have p: "2 \<le> p" and q: "2 \<le> q"
    by (simp_all add: isPrime_iff)
  from assms(3) obtain keys where keys: "generateKeyPair p q = Inr keys"
    and pk: "kp_publicKey keys = \<lparr> pk_n = p * q, pk_nSquared = p * q * (p * q), pk_g = p * q + 1 \<rparr>"
    and sk: "kp_privateKey keys = \<lparr> sk_lambda = lcm (p - 1) (q - 1),
        sk_mu = fst (snd (extendedGcd (lcm (p - 1) (q - 1) mod (p * q)) (p * q))) mod (p * q),
        sk_n = p * q, sk_nSquared = p * q * (p * q) \<rparr>"
    unfolding generateKeyPair_unfold [OF p q] by simp
  from generateKeyPair_private_key [OF assms(1,2) keys]
  have "0 \<le> sk_mu (kp_privateKey keys)"
    "(lcm (p - 1) (q - 1) * sk_mu (kp_privateKey keys)) mod (p * q) = 1"
    by simp_all
  with keys pk sk show ?thesis
    by (intro that [of keys "sk_mu (kp_privateKey keys)"]) simp_all
qed

lemma generateKeyPair_equal_primes:
  assumes "isPrime p"
  shows "\<exists>keys. generateKeyPair p p = Inr keys"
proof -
  from assms have p: "2 \<le> p"
    by (simp add: isPrime_iff)
  have "lcm (p - 1) (p - 1) = p - 1"
    using p by simp
  moreover have "coprime (p * p) (p - 1)"
    using coprime_diff_one_left [of p] by (simp add: coprime_commute)
  ultimately have "gcd (p * p) (lcm (p - 1) (p - 1)) = 1"
    by (simp add: coprime_iff_gcd_eq_1 [symmetric])
  then show ?thesis
    by (simp add: generateKeyPair_unfold [OF p p])
qed

subsection \<open>Decryption\<close>

text \<open>Decryption of any ciphertext of the shape \<open>(1 + n)^m * s^n mod n\<^sup>2\<close>.\<close>

lemma decrypt_core:
  assumes "isPrime p" "isPrime q" "p \<noteq> q"
    and mu: "0 \<le> mu" "(lcm (p - 1) (q - 1) * mu) mod (p * q) = 1"
    and s: "0 \<le> s" "coprime s (p * q)"
  shows "decrypt (((p * q + 1) ^ k * s ^ nat (p * q)) mod (p * q * (p * q)))
           \<lparr> sk_lambda = lcm (p - 1) (q - 1), sk_mu = mu, sk_n = p * q,
             sk_nSquared = p * q * (p * q) \<rparr>
         = Inr (int k mod (p * q))"
proof -
  from assms(1,2) have p: "2 \<le> p" and q: "2 \<le> q"
    by (simp_all add: isPrime_iff)
  define n l where "n = p * q" and "l = lcm (p - 1) (q - 1)"
  define c where "c = ((n + 1) ^ k * s ^ nat n) mod (n * n)"
  have n: "4 \<le> n"
    using p q mult_mono [of 2 p 2 q] by (simp add: n_def)
  have l: "0 < l"
    using p q by (simp add: l_def less_le)
  have n2: "0 < n * n"
    using n by simp
  have c: "0 \<le> c"
    using n2 by (simp add: c_def)
  have "c ^ nat l mod (n * n) = ((n + 1) ^ k * s ^ nat n) ^ nat l mod (n * n)"
    by (simp add: c_def power_mod)
  also have "\<dots> = (((1 + 1 * n) ^ (k * nat l) mod (n * n)) * ((s ^ nat n) ^ nat l mod (n * n))) mod (n * n)"
    by (simp add: power_mult_distrib power_mult mod_mult_eq add.commute)
  also have "(s ^ nat n) ^ nat l mod (n * n) = 1"
    using blinding_vanishes [OF assms(1-3) s] by (simp add: n_def l_def)
  also have "(1 + 1 * n) ^ (k * nat l) mod (n * n) = (1 + int (k * nat l) * 1 * n) mod (n * n)"
    by (rule one_plus_multiple_power)
  also have "int (k * nat l) * 1 * n = (int k * l) * n"
    using l by simp
  finally have cl: "c ^ nat l mod (n * n) = (1 + (int k * l) * n) mod (n * n)"
    by simp
  have Lc: "L ((1 + (int k * l) * n) mod (n * n)) n = Inr ((int k * l) mod n)"
    using n by (simp add: L_def bigint_div_def L_of_linear)
  have "((int k * l) mod n * mu) smod n = ((int k * l) mod n * mu) mod n"
    using n mu(1) by (intro smod_nonneg) simp_all
  also have "\<dots> = (int k * (l * mu)) mod n"
    by (simp add: mod_mult_left_eq mult.assoc)
  also have "\<dots> = (int k * ((l * mu) mod n)) mod n"
    by (simp add: mod_mult_right_eq)
  also have "(l * mu) mod n = 1"
    using mu(2) by (simp add: n_def l_def)
  finally have msg: "((int k * l) mod n * mu) smod n = int k mod n"
    by simp
  have "modPow c l (n * n) = Inr (c ^ nat l mod (n * n))"
    using c n2 l by (intro modPow_pos)
  then have "decrypt c \<lparr> sk_lambda = l, sk_mu = mu, sk_n = n, sk_nSquared = n * n \<rparr>
      = Inr (int k mod n)"
    using n by (simp add: decrypt_def cl Lc bigint_rem_def msg)
  then show ?thesis
    by (simp add: c_def n_def l_def)
qed

subsection \<open>Homomorphic addition and the tally\<close>

lemma smod_mult_left: "((a smod m) * b) smod m = (a * b) smod (m::int)"
proof (cases "\<bar>a\<bar> mod \<bar>m\<bar> = 0")
  case True
  then have "(\<bar>a\<bar> * \<bar>b\<bar>) mod \<bar>m\<bar> = 0"
    by (metis mod_mult_left_eq mult_zero_left mod_0)
  with True show ?thesis
    by (simp add: signed_modulo_int_def abs_mult)
next
  case False
  then have "a \<noteq> 0"
    by auto
  define r where "r = \<bar>a\<bar> mod \<bar>m\<bar>"
  have "0 \<le> r"
    by (cases "m = 0") (simp_all add: r_def)
  with False have r: "0 < r"
    by (simp add: r_def)
  have "sgn (sgn a * r * b) = sgn (a * b)"
    using r by (simp add: sgn_mult)
  moreover have "\<bar>sgn a * r * b\<bar> mod \<bar>m\<bar> = \<bar>a * b\<bar> mod \<bar>m\<bar>"
  proof -
    have eq: "\<bar>sgn a * r * b\<bar> = r * \<bar>b\<bar>"
      using r \<open>a \<noteq> 0\<close> by (simp add: abs_mult abs_sgn_eq)
    have "\<bar>sgn a * r * b\<bar> mod \<bar>m\<bar> = (r * \<bar>b\<bar>) mod \<bar>m\<bar>"
      by (simp only: eq)
    also have "\<dots> = (\<bar>a\<bar> * \<bar>b\<bar>) mod \<bar>m\<bar>"
      unfolding r_def by (rule mod_mult_left_eq)
    also have "\<dots> = \<bar>a * b\<bar> mod \<bar>m\<bar>"
      by (simp only: abs_mult)
    finally show ?thesis .
  qed
  ultimately show ?thesis
    by (simp add: signed_modulo_int_def r_def)
qed

lemma smod_mult_right: "(a * (b smod m)) smod m = (a * b) smod (m::int)"
  using smod_mult_left [of b m a] by (simp add: mult.commute)

lemma homomorphicSum_loop_eq:
  "homomorphicSum_loop acc cs publicKey =
     (if cs = [] then Inr acc
      else if pk_nSquared publicKey = 0 then Inl RangeError
      else Inr ((acc * prod_list cs) smod pk_nSquared publicKey))"
proof (induction cs arbitrary: acc)
  case Nil
  show ?case by simp
next
  case (Cons c cs)
  show ?case
  proof (cases "pk_nSquared publicKey = 0")
    case True
    then show ?thesis
      by (simp add: homomorphicAdd_def bigint_rem_def)
  next
    case False
    then show ?thesis
      by (simp add: homomorphicAdd_def bigint_rem_def Cons.IH smod_mult_left mult.assoc)
  qed
qed

lemma computeHomomorphicSum_eq:
  "computeHomomorphicSum (c # cs) publicKey =
     Some (if cs = [] then Inr c
           else if pk_nSquared publicKey = 0 then Inl RangeError
           else Inr (prod_list (c # cs) smod pk_nSquared publicKey))"
  by (simp add: computeHomomorphicSum_def homomorphicSum_loop_eq)

lemma computeHomomorphicSum_permutation:
  assumes "mset xs = mset ys"
  shows "computeHomomorphicSum xs publicKey = computeHomomorphicSum ys publicKey"
proof (cases "length xs \<le> 1")
  case True
  from assms have len: "length xs = length ys"
    by (rule mset_eq_length)
  show ?thesis
  proof (cases xs)
    case Nil
    with assms show ?thesis by simp
  next
    case (Cons x xs')
    with True have "xs = [x]" by simp
    with assms have "ys = [x]"
      by (metis mset_single_iff_right mset.simps(1) mset.simps(2) single_eq_add_mset add_mset_eq_single)
    with \<open>xs = [x]\<close> show ?thesis by simp
  qed
next
  case False
  from assms have len: "length xs = length ys"
    by (rule mset_eq_length)
  with False obtain x xs' y ys' where xs: "xs = x # xs'" "xs' \<noteq> []" and ys: "ys = y # ys'" "ys' \<noteq> []"
    by (cases xs; cases ys) auto
  have "prod_list xs = prod_list ys"
    using assms by (metis prod_mset_prod_list)
  then show ?thesis
    unfolding xs(1) ys(1) computeHomomorphicSum_eq using xs(2) ys(2) by (simp add: xs(1) ys(1))
qed

subsection \<open>Range of the ciphertexts\<close>

lemma modPow_nonneg_result:
  assumes "0 \<le> base" "0 < m"
  obtains v where "modPow base exp m = Inr v" "0 \<le> v"
proof (cases "0 < exp")
  case True
  with assms have "modPow base exp m = Inr (base ^ nat exp mod m)"
    by (intro modPow_pos)
  moreover have "0 \<le> base ^ nat exp mod m"
    using assms(2) by simp
  ultimately show ?thesis
    by (rule that)
next
  case False
  with assms(2) have "modPow base exp m = Inr 1"
    by (intro modPow_nonpos) simp_all
  then show ?thesis
    by (rule that) simp
qed

lemma encrypt_range:
  assumes "encrypt message publicKey tape = Some res"
    and "0 \<le> pk_g publicKey" "1 \<le> pk_nSquared publicKey"
  shows "\<exists>enc. res = Inr enc \<and> 0 \<le> er_ciphertext enc \<and> er_ciphertext enc < pk_nSquared publicKey"
proof -
  from assms(1) obtain r where r: "encrypt_loop (pk_n publicKey) tape = Some r"
    by (auto simp: encrypt_def Let_def split: option.splits)
  from encrypt_loop_coprime(1,2) [OF r] have "0 \<le> r"
    by simp
  from assms(3) have M: "0 < pk_nSquared publicKey"
    by simp
  obtain gm where gm: "modPow (pk_g publicKey) message (pk_nSquared publicKey) = Inr gm" "0 \<le> gm"
    using assms(2) M by (rule modPow_nonneg_result)
  obtain rn where rn: "modPow r (pk_n publicKey) (pk_nSquared publicKey) = Inr rn" "0 \<le> rn"
    using \<open>0 \<le> r\<close> M by (rule modPow_nonneg_result)
  have "(gm * rn) smod pk_nSquared publicKey = (gm * rn) mod pk_nSquared publicKey"
    using gm(2) rn(2) M by (intro smod_nonneg) simp_all
  with assms(1) r gm(1) rn(1) M
  have "res = Inr \<lparr> er_ciphertext = (gm * rn) mod pk_nSquared publicKey, er_r = r \<rparr>"
    by (simp add: encrypt_def Let_def bigint_rem_def)
  with M show ?thesis
    by simp
qed

lemma homomorphicAdd_range:
  assumes "0 \<le> c1" "0 \<le> c2" "1 \<le> pk_nSquared publicKey"
  shows "\<exists>c. homomorphicAdd c1 c2 publicKey = Inr c \<and> 0 \<le> c \<and> c < pk_nSquared publicKey"
proof -
  have "(c1 * c2) smod pk_nSquared publicKey = (c1 * c2) mod pk_nSquared publicKey"
    using assms by (intro smod_nonneg) simp_all
  with assms(3) show ?thesis
    by (simp add: homomorphicAdd_def bigint_rem_def)
qed

lemma homomorphicMultiplyScalar_range:
  assumes "0 \<le> c" "1 \<le> pk_nSquared publicKey"
    and "1 \<le> scalar \<or> (0 \<le> scalar \<and> 2 \<le> pk_nSquared publicKey)"
  shows "\<exists>c'. homomorphicMultiplyScalar c scalar publicKey = Inr c' \<and> 0 \<le> c' \<and> c' < pk_nSquared publicKey"
proof (cases "1 \<le> scalar")
  case True
  with assms(1,2)
  have "modPow c scalar (pk_nSquared publicKey) = Inr (c ^ nat scalar mod pk_nSquared publicKey)"
    by (intro modPow_pos) simp_all
  with assms(2) show ?thesis
    by (simp add: homomorphicMultiplyScalar_def)
next
  case False
  with assms(3) have "scalar = 0" "2 \<le> pk_nSquared publicKey"
    by simp_all
  then show ?thesis
    by (simp add: homomorphicMultiplyScalar_def modPow_zero_exponent)
qed

text \<open>
  Within the domain of the operations (a key with \<open>nSquared \<ge> 1\<close> and \<open>g \<ge> 0\<close>, as every
  generated key has with \<open>g = n + 1\<close>, and input ciphertexts that are not negative) every
  ciphertext returned lies in \<open>[0, nSquared)\<close>, except for scalar \<open>0\<close> when \<open>nSquared\<close> is \<open>1\<close>.
\<close>

lemma ciphertext_range_in_domain:
  assumes "1 \<le> pk_nSquared publicKey"
  shows "(\<forall>message tape res.
            0 \<le> pk_g publicKey \<and> encrypt message publicKey tape = Some res \<longrightarrow>
            (\<exists>enc. res = Inr enc \<and> 0 \<le> er_ciphertext enc
               \<and> er_ciphertext enc < pk_nSquared publicKey))
       \<and> (\<forall>c1 c2.
            0 \<le> c1 \<and> 0 \<le> c2 \<longrightarrow>
            (\<exists>c. homomorphicAdd c1 c2 publicKey = Inr c \<and> 0 \<le> c \<and> c < pk_nSquared publicKey))
       \<and> (\<forall>c scalar.
            0 \<le> c \<and> (1 \<le> scalar \<or> (0 \<le> scalar \<and> 2 \<le> pk_nSquared publicKey)) \<longrightarrow>
            (\<exists>c'. homomorphicMultiplyScalar c scalar publicKey = Inr c' \<and> 0 \<le> c'
               \<and> c' < pk_nSquared publicKey))"
  using assms encrypt_range homomorphicAdd_range homomorphicMultiplyScalar_range
  by blast

section \<open>Properties\<close>

subsection \<open>Round trip\<close>

text \<open>
  The primes of the claims are the numbers that \<open>isPrime\<close> accepts: by lemma \<open>isPrime_iff\<close>
  these are exactly the integers above \<open>1\<close> with no divisor strictly between \<open>1\<close> and
  themselves. \<open>gcd\<close> and \<open>lcm\<close> in the statements are the mathematical functions; on the
  non-negative numbers of key generation the loops of the source compute them (lemmas
  \<open>gcd_big_nonneg\<close>, \<open>lcm_big_nonneg\<close>).
\<close>

text \<open>
  Claim C1 (round trip): for primes \<open>p \<noteq> q\<close> with \<open>gcd(p * q, lcm(p - 1, q - 1)) = 1\<close>,
  \<open>generateKeyPair(p, q)\<close> returns a key pair, and for every message \<open>0 \<le> m < n\<close> and every
  tape of random bytes on which \<open>encrypt\<close> leaves its sampling loop, \<open>encrypt\<close> returns a
  result whose blinding factor \<open>r\<close> lies in \<open>[2, n - 1]\<close> with \<open>gcd(r, n) = 1\<close> and whose
  ciphertext \<open>decrypt\<close> maps back to \<open>m\<close>. Every \<open>r\<close> in \<open>[2, n - 1]\<close> with \<open>gcd(r, n) = 1\<close> is the
  blinding factor of \<open>encrypt\<close> on some tape.
\<close>

theorem encrypt_decrypt_roundtrip:
  assumes "isPrime p" "isPrime q" "p \<noteq> q" "gcd (p * q) (lcm (p - 1) (q - 1)) = 1"
    and "0 \<le> m" "m < p * q"
  shows "\<exists>keys. generateKeyPair p q = Inr keys
           \<and> (\<forall>tape res. encrypt m (kp_publicKey keys) tape = Some res \<longrightarrow>
                 (\<exists>enc. res = Inr enc
                    \<and> 2 \<le> er_r enc \<and> er_r enc < p * q \<and> gcd (er_r enc) (p * q) = 1
                    \<and> decrypt (er_ciphertext enc) (kp_privateKey keys) = Inr m))
           \<and> (\<forall>r. 2 \<le> r \<and> r < p * q \<and> gcd r (p * q) = 1 \<longrightarrow>
                 (\<exists>tape enc. encrypt m (kp_publicKey keys) tape = Some (Inr enc) \<and> er_r enc = r))"
proof -
  from assms(1,2) have p: "2 \<le> p" and q: "2 \<le> q"
    by (simp_all add: isPrime_iff)
  have n: "4 \<le> p * q"
    using p q mult_mono [of 2 p 2 q] by simp
  then have n2: "2 \<le> p * q * (p * q)"
    using mult_mono [of 4 "p * q" 4 "p * q"] by simp
  obtain keys mu where keys: "generateKeyPair p q = Inr keys"
    and pk: "kp_publicKey keys = \<lparr> pk_n = p * q, pk_nSquared = p * q * (p * q), pk_g = p * q + 1 \<rparr>"
    and sk: "kp_privateKey keys = \<lparr> sk_lambda = lcm (p - 1) (q - 1), sk_mu = mu, sk_n = p * q,
                                  sk_nSquared = p * q * (p * q) \<rparr>"
    and mu: "0 \<le> mu" "(lcm (p - 1) (q - 1) * mu) mod (p * q) = 1"
    using assms(1,2,4) by (rule generateKeyPair_valid)
  have "\<exists>enc. res = Inr enc
          \<and> 2 \<le> er_r enc \<and> er_r enc < p * q \<and> gcd (er_r enc) (p * q) = 1
          \<and> decrypt (er_ciphertext enc) (kp_privateKey keys) = Inr m"
    if enc: "encrypt m (kp_publicKey keys) tape = Some res" for tape res
  proof -
    have "0 \<le> pk_g (kp_publicKey keys)" "2 \<le> pk_nSquared (kp_publicKey keys)"
      using n n2 by (simp_all add: pk)
    from encrypt_ciphertext [OF enc this(1) assms(5) this(2)]
    obtain r where r: "2 \<le> r" "r < p * q" "coprime r (p * q)"
      and res: "res = Inr \<lparr> er_ciphertext = ((p * q + 1) ^ nat m * r ^ nat (p * q)) mod (p * q * (p * q)),
                            er_r = r \<rparr>"
      unfolding pk PaillierPublicKey.select_convs by blast
    have "decrypt (((p * q + 1) ^ nat m * r ^ nat (p * q)) mod (p * q * (p * q))) (kp_privateKey keys)
        = Inr (int (nat m) mod (p * q))"
      unfolding sk using assms(1-3) mu r by (intro decrypt_core) simp_all
    with assms(5,6) r res show ?thesis
      by (simp add: coprime_iff_gcd_eq_1)
  qed
  moreover have "\<exists>tape enc. encrypt m (kp_publicKey keys) tape = Some (Inr enc) \<and> er_r enc = r"
    if "2 \<le> r \<and> r < p * q \<and> gcd r (p * q) = 1" for r
    using that n n2 assms(5) by (intro encrypt_draws) (simp_all add: pk)
  ultimately show ?thesis
    using keys by blast
qed

theorem encrypt_decrypt_roundtrip_witness:
  "isPrime 7 \<and> isPrime 11 \<and> (7::int) \<noteq> 11 \<and> gcd (7 * 11) (lcm (7 - 1) (11 - 1)) = (1::int)
   \<and> (0::int) \<le> 1 \<and> (1::int) < 7 * 11
   \<and> (\<exists>keys enc. generateKeyPair 7 11 = Inr keys
         \<and> encrypt 1 (kp_publicKey keys) [200, 5, 3] = Some (Inr enc)
         \<and> er_r enc = 5
         \<and> decrypt (er_ciphertext enc) (kp_privateKey keys) = Inr 1)"
proof -
  have p: "isPrime 7" and q: "isPrime 11"
    by code_simp+
  have valid: "gcd (7 * 11) (lcm (7 - 1) (11 - 1)) = (1::int)"
    by code_simp
  from encrypt_decrypt_roundtrip [OF p q _ valid, of 1]
  obtain keys where keys: "generateKeyPair 7 11 = Inr keys"
    and all: "\<And>tape res. encrypt 1 (kp_publicKey keys) tape = Some res \<Longrightarrow>
               \<exists>enc. res = Inr enc \<and> 2 \<le> er_r enc \<and> er_r enc < 7 * 11
                 \<and> gcd (er_r enc) (7 * 11) = 1
                 \<and> decrypt (er_ciphertext enc) (kp_privateKey keys) = Inr 1"
    by auto
  have "generateKeyPair 7 11 =
       Inr \<lparr> kp_publicKey = \<lparr> pk_n = 77, pk_nSquared = 5929, pk_g = 78 \<rparr>,
             kp_privateKey = \<lparr> sk_lambda = 30, sk_mu = 18, sk_n = 77, sk_nSquared = 5929 \<rparr>,
             kp_steps = \<lparr> ks_p = 7, ks_q = 11, ks_n = 77, ks_nSquared = 5929, ks_g = 78,
                          ks_pMinus1 = 6, ks_qMinus1 = 10, ks_lambda = 30, ks_gLambda = 2311,
                          ks_lOfGLambda = 30, ks_mu = 18 \<rparr> \<rparr>"
    by code_simp
  with keys have pk: "kp_publicKey keys = \<lparr> pk_n = 77, pk_nSquared = 5929, pk_g = 78 \<rparr>"
    by auto
  have "encrypt 1 \<lparr> pk_n = 77, pk_nSquared = 5929, pk_g = 78 \<rparr> [200, 5, 3]
      = Some (Inr \<lparr> er_ciphertext = 1928, er_r = 5 \<rparr>)"
    by code_simp
  then have enc: "encrypt 1 (kp_publicKey keys) [200, 5, 3]
      = Some (Inr \<lparr> er_ciphertext = 1928, er_r = 5 \<rparr>)"
    by (simp only: pk)
  from all [OF enc] have "decrypt 1928 (kp_privateKey keys) = Inr 1"
    by simp
  with keys enc have "\<exists>keys enc. generateKeyPair 7 11 = Inr keys
         \<and> encrypt 1 (kp_publicKey keys) [200, 5, 3] = Some (Inr enc)
         \<and> er_r enc = 5
         \<and> decrypt (er_ciphertext enc) (kp_privateKey keys) = Inr 1"
    by (intro exI [of _ keys] exI [of _ "\<lparr> er_ciphertext = 1928, er_r = 5 \<rparr>"]) simp
  with p q valid show ?thesis
    by simp
qed

subsection \<open>Additive homomorphism\<close>

text \<open>
  Claim C2 (additive homomorphism): for a key pair that \<open>generateKeyPair(p, q)\<close> returns on
  valid primes, for messages \<open>m1, m2 \<ge> 0\<close> with \<open>m1 + m2 < n\<close> and for every two tapes of
  random bytes on which the two \<open>encrypt\<close> calls return, \<open>homomorphicAdd\<close> of the two
  ciphertexts returns a ciphertext that \<open>decrypt\<close> maps to \<open>m1 + m2\<close>. Every pair of blinding
  factors in \<open>[2, n - 1]\<close> coprime to \<open>n\<close> is drawn on some pair of tapes.
\<close>

theorem homomorphicAdd_decrypts_to_sum:
  assumes "isPrime p" "isPrime q" "p \<noteq> q" "gcd (p * q) (lcm (p - 1) (q - 1)) = 1"
    and "0 \<le> m1" "0 \<le> m2" "m1 + m2 < p * q"
  shows "\<exists>keys. generateKeyPair p q = Inr keys
           \<and> (\<forall>tape1 tape2 res1 res2.
                 encrypt m1 (kp_publicKey keys) tape1 = Some res1
                 \<and> encrypt m2 (kp_publicKey keys) tape2 = Some res2 \<longrightarrow>
                 (\<exists>enc1 enc2 c. res1 = Inr enc1 \<and> res2 = Inr enc2
                    \<and> homomorphicAdd (er_ciphertext enc1) (er_ciphertext enc2) (kp_publicKey keys) = Inr c
                    \<and> decrypt c (kp_privateKey keys) = Inr (m1 + m2)))
           \<and> (\<forall>r1 r2. 2 \<le> r1 \<and> r1 < p * q \<and> gcd r1 (p * q) = 1
                   \<and> 2 \<le> r2 \<and> r2 < p * q \<and> gcd r2 (p * q) = 1 \<longrightarrow>
                 (\<exists>tape1 tape2 enc1 enc2.
                    encrypt m1 (kp_publicKey keys) tape1 = Some (Inr enc1) \<and> er_r enc1 = r1
                    \<and> encrypt m2 (kp_publicKey keys) tape2 = Some (Inr enc2) \<and> er_r enc2 = r2))"
proof -
  from assms(1,2) have p: "2 \<le> p" and q: "2 \<le> q"
    by (simp_all add: isPrime_iff)
  define n where "n = p * q"
  have n: "4 \<le> n"
    using p q mult_mono [of 2 p 2 q] by (simp add: n_def)
  then have n2: "2 \<le> n * n"
    using mult_mono [of 4 n 4 n] by simp
  obtain keys mu where keys: "generateKeyPair p q = Inr keys"
    and pk: "kp_publicKey keys = \<lparr> pk_n = n, pk_nSquared = n * n, pk_g = n + 1 \<rparr>"
    and sk: "kp_privateKey keys = \<lparr> sk_lambda = lcm (p - 1) (q - 1), sk_mu = mu, sk_n = n,
                                  sk_nSquared = n * n \<rparr>"
    and mu: "0 \<le> mu" "(lcm (p - 1) (q - 1) * mu) mod n = 1"
    unfolding n_def using assms(1,2,4) by (rule generateKeyPair_valid)
  have g: "0 \<le> pk_g (kp_publicKey keys)" "2 \<le> pk_nSquared (kp_publicKey keys)"
    using n n2 by (simp_all add: pk)
  have "\<exists>enc1 enc2 c. res1 = Inr enc1 \<and> res2 = Inr enc2
          \<and> homomorphicAdd (er_ciphertext enc1) (er_ciphertext enc2) (kp_publicKey keys) = Inr c
          \<and> decrypt c (kp_privateKey keys) = Inr (m1 + m2)"
    if enc1: "encrypt m1 (kp_publicKey keys) tape1 = Some res1"
      and enc2: "encrypt m2 (kp_publicKey keys) tape2 = Some res2"
    for tape1 tape2 res1 res2
  proof -
    from encrypt_ciphertext [OF enc1 g(1) assms(5) g(2)]
    obtain r1 where r1: "2 \<le> r1" "coprime r1 n"
      and res1: "res1 = Inr \<lparr> er_ciphertext = ((n + 1) ^ nat m1 * r1 ^ nat n) mod (n * n), er_r = r1 \<rparr>"
      unfolding pk PaillierPublicKey.select_convs by blast
    from encrypt_ciphertext [OF enc2 g(1) assms(6) g(2)]
    obtain r2 where r2: "2 \<le> r2" "coprime r2 n"
      and res2: "res2 = Inr \<lparr> er_ciphertext = ((n + 1) ^ nat m2 * r2 ^ nat n) mod (n * n), er_r = r2 \<rparr>"
      unfolding pk PaillierPublicKey.select_convs by blast
    define c where "c = ((n + 1) ^ (nat m1 + nat m2) * (r1 * r2) ^ nat n) mod (n * n)"
    have "(((n + 1) ^ nat m1 * r1 ^ nat n) mod (n * n) * (((n + 1) ^ nat m2 * r2 ^ nat n) mod (n * n)))
            smod (n * n)
        = (((n + 1) ^ nat m1 * r1 ^ nat n) * ((n + 1) ^ nat m2 * r2 ^ nat n)) mod (n * n)"
      using n2 by (simp add: smod_nonneg mod_mult_eq)
    also have "((n + 1) ^ nat m1 * r1 ^ nat n) * ((n + 1) ^ nat m2 * r2 ^ nat n)
        = (n + 1) ^ (nat m1 + nat m2) * (r1 * r2) ^ nat n"
      by (simp add: power_add power_mult_distrib)
    finally have add: "homomorphicAdd (((n + 1) ^ nat m1 * r1 ^ nat n) mod (n * n))
        (((n + 1) ^ nat m2 * r2 ^ nat n) mod (n * n)) (kp_publicKey keys) = Inr c"
      using n by (simp add: homomorphicAdd_def bigint_rem_def pk c_def)
    have "decrypt c (kp_privateKey keys) = Inr (int (nat m1 + nat m2) mod n)"
      unfolding sk c_def n_def
      using assms(1-3) mu r1 r2 by (intro decrypt_core) (simp_all add: n_def)
    also have "int (nat m1 + nat m2) mod n = m1 + m2"
      using assms(5-7) by (simp add: n_def)
    finally show ?thesis
      using res1 res2 add by simp
  qed
  moreover have "\<exists>tape1 tape2 enc1 enc2.
          encrypt m1 (kp_publicKey keys) tape1 = Some (Inr enc1) \<and> er_r enc1 = r1
          \<and> encrypt m2 (kp_publicKey keys) tape2 = Some (Inr enc2) \<and> er_r enc2 = r2"
    if r: "2 \<le> r1 \<and> r1 < p * q \<and> gcd r1 (p * q) = 1
         \<and> 2 \<le> r2 \<and> r2 < p * q \<and> gcd r2 (p * q) = 1" for r1 r2
  proof -
    have "\<exists>tape enc. encrypt m1 (kp_publicKey keys) tape = Some (Inr enc) \<and> er_r enc = r1"
      using r g assms(5) by (intro encrypt_draws) (simp_all add: pk n_def)
    moreover
    have "\<exists>tape enc. encrypt m2 (kp_publicKey keys) tape = Some (Inr enc) \<and> er_r enc = r2"
      using r g assms(6) by (intro encrypt_draws) (simp_all add: pk n_def)
    ultimately show ?thesis
      by blast
  qed
  ultimately show ?thesis
    using keys by blast
qed

theorem homomorphicAdd_decrypts_to_sum_witness:
  "isPrime 7 \<and> isPrime 11 \<and> (7::int) \<noteq> 11 \<and> gcd (7 * 11) (lcm (7 - 1) (11 - 1)) = (1::int)
   \<and> (0::int) \<le> 1 \<and> (0::int) \<le> 0 \<and> (1::int) + 0 < 7 * 11
   \<and> (\<exists>keys enc1 enc2 c. generateKeyPair 7 11 = Inr keys
         \<and> encrypt 1 (kp_publicKey keys) [200, 5, 3] = Some (Inr enc1)
         \<and> encrypt 0 (kp_publicKey keys) [17] = Some (Inr enc2)
         \<and> homomorphicAdd (er_ciphertext enc1) (er_ciphertext enc2) (kp_publicKey keys) = Inr c
         \<and> decrypt c (kp_privateKey keys) = Inr (1 + 0))"
proof -
  have p: "isPrime 7" and q: "isPrime 11"
    by code_simp+
  have valid: "gcd (7 * 11) (lcm (7 - 1) (11 - 1)) = (1::int)"
    by code_simp
  from homomorphicAdd_decrypts_to_sum [OF p q _ valid, of 1 0]
  obtain keys where keys: "generateKeyPair 7 11 = Inr keys"
    and all: "\<And>tape1 tape2 res1 res2.
               encrypt 1 (kp_publicKey keys) tape1 = Some res1 \<Longrightarrow>
               encrypt 0 (kp_publicKey keys) tape2 = Some res2 \<Longrightarrow>
               \<exists>enc1 enc2 c. res1 = Inr enc1 \<and> res2 = Inr enc2
                 \<and> homomorphicAdd (er_ciphertext enc1) (er_ciphertext enc2) (kp_publicKey keys) = Inr c
                 \<and> decrypt c (kp_privateKey keys) = Inr (1 + 0)"
    by auto
  have "generateKeyPair 7 11 =
       Inr \<lparr> kp_publicKey = \<lparr> pk_n = 77, pk_nSquared = 5929, pk_g = 78 \<rparr>,
             kp_privateKey = \<lparr> sk_lambda = 30, sk_mu = 18, sk_n = 77, sk_nSquared = 5929 \<rparr>,
             kp_steps = \<lparr> ks_p = 7, ks_q = 11, ks_n = 77, ks_nSquared = 5929, ks_g = 78,
                          ks_pMinus1 = 6, ks_qMinus1 = 10, ks_lambda = 30, ks_gLambda = 2311,
                          ks_lOfGLambda = 30, ks_mu = 18 \<rparr> \<rparr>"
    by code_simp
  with keys have pk: "kp_publicKey keys = \<lparr> pk_n = 77, pk_nSquared = 5929, pk_g = 78 \<rparr>"
    by auto
  have "encrypt 1 \<lparr> pk_n = 77, pk_nSquared = 5929, pk_g = 78 \<rparr> [200, 5, 3]
      = Some (Inr \<lparr> er_ciphertext = 1928, er_r = 5 \<rparr>)"
    by code_simp
  then have enc1: "encrypt 1 (kp_publicKey keys) [200, 5, 3]
      = Some (Inr \<lparr> er_ciphertext = 1928, er_r = 5 \<rparr>)"
    by (simp only: pk)
  have "encrypt 0 \<lparr> pk_n = 77, pk_nSquared = 5929, pk_g = 78 \<rparr> [17]
      = Some (Inr \<lparr> er_ciphertext = 717, er_r = 19 \<rparr>)"
    by code_simp
  then have enc2: "encrypt 0 (kp_publicKey keys) [17]
      = Some (Inr \<lparr> er_ciphertext = 717, er_r = 19 \<rparr>)"
    by (simp only: pk)
  from all [OF enc1 enc2] obtain c
    where "homomorphicAdd 1928 717 (kp_publicKey keys) = Inr c"
      and "decrypt c (kp_privateKey keys) = Inr (1 + 0)"
    by auto
  with keys enc1 enc2 have "\<exists>keys enc1 enc2 c. generateKeyPair 7 11 = Inr keys
         \<and> encrypt 1 (kp_publicKey keys) [200, 5, 3] = Some (Inr enc1)
         \<and> encrypt 0 (kp_publicKey keys) [17] = Some (Inr enc2)
         \<and> homomorphicAdd (er_ciphertext enc1) (er_ciphertext enc2) (kp_publicKey keys) = Inr c
         \<and> decrypt c (kp_privateKey keys) = Inr (1 + 0)"
    by (intro exI [of _ keys] exI [of _ "\<lparr> er_ciphertext = 1928, er_r = 5 \<rparr>"]
          exI [of _ "\<lparr> er_ciphertext = 717, er_r = 19 \<rparr>"] exI [of _ c]) simp
  with p q valid show ?thesis
    by simp
qed

subsection \<open>Equal primes\<close>

text \<open>
  Claim C3 says that \<open>generateKeyPair(p, p)\<close> fails for every prime \<open>p\<close>. The function only
  checks \<open>gcd(n, \<lambda>) = 1\<close>, which holds for \<open>n = p\<^sup>2\<close> and \<open>\<lambda> = p - 1\<close>, so it returns a key pair
  for every prime (lemma \<open>generateKeyPair_equal_primes\<close>), while \<open>isValidPaillierPair\<close>
  rejects \<open>p = q\<close>. The code at the input \<open>generateKeyPair(3n, 3n)\<close>, and the round trip of
  the message \<open>1\<close> under the key pair it returns, which ends in \<open>7\<close>:
\<close>

theorem generateKeyPair_accepts_equal_primes:
  "isPrime 3
   \<and> isValidPaillierPair 3 3 = Inr False
   \<and> generateKeyPair 3 3 =
       Inr \<lparr> kp_publicKey = \<lparr> pk_n = 9, pk_nSquared = 81, pk_g = 10 \<rparr>,
             kp_privateKey = \<lparr> sk_lambda = 2, sk_mu = 5, sk_n = 9, sk_nSquared = 81 \<rparr>,
             kp_steps = \<lparr> ks_p = 3, ks_q = 3, ks_n = 9, ks_nSquared = 81, ks_g = 10,
                          ks_pMinus1 = 2, ks_qMinus1 = 2, ks_lambda = 2, ks_gLambda = 19,
                          ks_lOfGLambda = 2, ks_mu = 5 \<rparr> \<rparr>
   \<and> encrypt 1 \<lparr> pk_n = 9, pk_nSquared = 81, pk_g = 10 \<rparr> [0]
       = Some (Inr \<lparr> er_ciphertext = 17, er_r = 2 \<rparr>)
   \<and> decrypt 17 \<lparr> sk_lambda = 2, sk_mu = 5, sk_n = 9, sk_nSquared = 81 \<rparr> = Inr 7"
  by code_simp

subsection \<open>The private-key multiplier\<close>

text \<open>
  Claim C4: whenever \<open>generateKeyPair(p, q)\<close> returns a key pair for primes \<open>p\<close> and \<open>q\<close>,
  the private key holds \<open>\<lambda> = lcm(p - 1, q - 1)\<close> and \<open>n = p * q\<close>, and its \<open>mu\<close> is the
  modular inverse of \<open>\<lambda>\<close> modulo \<open>n\<close>: it is what \<open>modInverse(\<lambda>, n)\<close> returns, it lies in
  \<open>[0, n)\<close>, and \<open>\<lambda> * mu mod n = 1\<close>.
\<close>

theorem generateKeyPair_mu_is_inverse_of_lambda:
  assumes "isPrime p" "isPrime q" "generateKeyPair p q = Inr keys"
  shows "sk_lambda (kp_privateKey keys) = lcm (p - 1) (q - 1)
       \<and> sk_n (kp_privateKey keys) = p * q
       \<and> modInverse (lcm (p - 1) (q - 1)) (p * q) = Inr (sk_mu (kp_privateKey keys))
       \<and> 0 \<le> sk_mu (kp_privateKey keys) \<and> sk_mu (kp_privateKey keys) < p * q
       \<and> (lcm (p - 1) (q - 1) * sk_mu (kp_privateKey keys)) mod (p * q) = 1"
  using assms by (rule generateKeyPair_private_key)

theorem generateKeyPair_mu_is_inverse_of_lambda_witness:
  "isPrime 7 \<and> isPrime 11
   \<and> generateKeyPair 7 11 =
       Inr \<lparr> kp_publicKey = \<lparr> pk_n = 77, pk_nSquared = 5929, pk_g = 78 \<rparr>,
             kp_privateKey = \<lparr> sk_lambda = 30, sk_mu = 18, sk_n = 77, sk_nSquared = 5929 \<rparr>,
             kp_steps = \<lparr> ks_p = 7, ks_q = 11, ks_n = 77, ks_nSquared = 5929, ks_g = 78,
                          ks_pMinus1 = 6, ks_qMinus1 = 10, ks_lambda = 30, ks_gLambda = 2311,
                          ks_lOfGLambda = 30, ks_mu = 18 \<rparr> \<rparr>
   \<and> modInverse (lcm (7 - 1) (11 - 1)) (7 * 11) = Inr 18
   \<and> (lcm (7 - 1) (11 - 1) * 18) mod (7 * 11) = (1::int)"
proof -
  have p: "isPrime 7" and q: "isPrime 11"
    by code_simp+
  have keys: "generateKeyPair 7 11 =
       Inr \<lparr> kp_publicKey = \<lparr> pk_n = 77, pk_nSquared = 5929, pk_g = 78 \<rparr>,
             kp_privateKey = \<lparr> sk_lambda = 30, sk_mu = 18, sk_n = 77, sk_nSquared = 5929 \<rparr>,
             kp_steps = \<lparr> ks_p = 7, ks_q = 11, ks_n = 77, ks_nSquared = 5929, ks_g = 78,
                          ks_pMinus1 = 6, ks_qMinus1 = 10, ks_lambda = 30, ks_gLambda = 2311,
                          ks_lOfGLambda = 30, ks_mu = 18 \<rparr> \<rparr>"
    by code_simp
  from generateKeyPair_mu_is_inverse_of_lambda [OF p q keys] p q keys show ?thesis
    unfolding PaillierKeyPair.select_convs PaillierPrivateKey.select_convs
    by blast
qed

subsection \<open>Decryption and its step trace\<close>

text \<open>
  Claim C5 (trace agreement): for every ciphertext and every private key, \<open>decrypt\<close>
  returns the \<open>message\<close> field of what \<open>decryptWithSteps\<close> returns, and throws the same
  exception where \<open>decryptWithSteps\<close> throws. No condition on the key is needed.
\<close>

theorem decrypt_agrees_with_steps:
  "decrypt c privateKey =
     (case decryptWithSteps c privateKey of
        Inl e \<Rightarrow> Inl e
      | Inr trace \<Rightarrow> Inr (ds_message trace))"
  by (simp add: decrypt_def decryptWithSteps_def Let_def split: sum.splits)

subsection \<open>Zero exponent\<close>

text \<open>
  Claim C6 says that \<open>modPow(base, 0, modulus)\<close> returns \<open>1 mod modulus\<close> for every modulus
  \<open>\<ge> 1\<close>. The loop is not entered for exponent \<open>0\<close> and the initial \<open>result = 1n\<close> is returned
  as it is (lemma \<open>modPow_zero_exponent\<close>). For modulus \<open>1\<close> that is \<open>1\<close>, whereas
  \<open>1 mod 1 = 0\<close>: the code at the input \<open>modPow(5n, 0n, 1n)\<close>.
\<close>

theorem modPow_zero_exponent_modulus_one:
  "modPow 5 0 1 = Inr 1 \<and> (1::int) smod 1 = 0 \<and> (1::int) mod 1 = 0"
  by (simp add: modPow_zero_exponent smod_nonneg)

subsection \<open>Modular inverse\<close>

text \<open>
  Claim C7: for \<open>a \<ge> 0\<close> and \<open>modulus \<ge> 1\<close>, \<open>modInverse(a, modulus)\<close> throws if and only if
  \<open>gcd(a, modulus) \<noteq> 1\<close>, and what it throws then is "Modular inverse does not exist";
  when \<open>gcd(a, modulus) = 1\<close> it returns an \<open>x\<close> in \<open>[0, modulus)\<close> with
  \<open>a * x \<equiv> 1 (mod modulus)\<close>.
\<close>

theorem modInverse_fails_iff_not_coprime:
  assumes "0 \<le> a" "1 \<le> m"
  shows "((\<exists>e. modInverse a m = Inl e) \<longleftrightarrow> gcd a m \<noteq> 1)
       \<and> (gcd a m \<noteq> 1 \<longrightarrow> modInverse a m = Inl NoInverse)
       \<and> (gcd a m = 1 \<longrightarrow>
            (\<exists>x. modInverse a m = Inr x \<and> 0 \<le> x \<and> x < m \<and> (a * x) mod m = 1 mod m))"
proof -
  from assms have m: "0 < m" by simp
  define x where "x = fst (snd (extendedGcd (a mod m) m)) mod m"
  have res: "modInverse a m = (if gcd a m \<noteq> 1 then Inl NoInverse else Inr x)"
    using modInverse_nonneg(1) [OF assms(1) m] by (simp add: x_def)
  have range: "0 \<le> x" "x < m"
    using m by (simp_all add: x_def)
  have inv: "(a * x) mod m = 1 mod m" if "gcd a m = 1"
    using modInverse_nonneg(2) [OF assms(1) m that] by (simp add: x_def)
  show ?thesis
  proof (cases "gcd a m = 1")
    case True
    with res range inv show ?thesis by simp
  next
    case False
    with res show ?thesis by simp
  qed
qed

theorem modInverse_fails_iff_not_coprime_witness:
  "(0::int) \<le> 30 \<and> (1::int) \<le> 77 \<and> gcd 30 77 = (1::int)
   \<and> (\<exists>x. modInverse 30 77 = Inr x \<and> 0 \<le> x \<and> x < 77 \<and> (30 * x) mod 77 = 1 mod 77)
   \<and> (0::int) \<le> 21 \<and> gcd 21 77 \<noteq> (1::int) \<and> modInverse 21 77 = Inl NoInverse"
proof -
  have a: "(0::int) \<le> 30" and b: "(0::int) \<le> 21" and m: "(1::int) \<le> 77"
    by simp_all
  have coprime: "gcd 30 77 = (1::int)" and common: "gcd 21 77 \<noteq> (1::int)"
    by code_simp+
  from modInverse_fails_iff_not_coprime [OF a m] coprime
  have "\<exists>x. modInverse 30 77 = Inr x \<and> 0 \<le> x \<and> x < 77 \<and> (30 * x) mod 77 = 1 mod 77"
    by blast
  moreover from modInverse_fails_iff_not_coprime [OF b m] common
  have "modInverse 21 77 = Inl NoInverse"
    by blast
  ultimately show ?thesis
    using a b m coprime common by blast
qed

subsection \<open>Ciphertext range\<close>

text \<open>
  Claim C8 says that for every public key with \<open>nSquared = n\<^sup>2 \<ge> 1\<close> every ciphertext that
  \<open>encrypt\<close>, \<open>homomorphicAdd\<close> and \<open>homomorphicMultiplyScalar\<close> (on any input ciphertext and
  scalar \<open>\<ge> 0\<close>) return lies in \<open>[0, n\<^sup>2)\<close>. For keys with \<open>g \<ge> 0\<close> and input ciphertexts that
  are not negative the code does so (lemma \<open>ciphertext_range_in_domain\<close>), with one
  exception: with scalar \<open>0\<close>, \<open>homomorphicMultiplyScalar\<close> returns the unreduced initial
  \<open>result = 1n\<close> of \<open>modPow\<close>, which is outside \<open>[0, 1)\<close> when \<open>n = 1\<close>. It is the defect of claim
  C6. The code at the input \<open>homomorphicMultiplyScalar(0n, 0n, { n: 1n, nSquared: 1n, g: 2n })\<close>,
  whose ciphertext \<open>0\<close> is in \<open>[0, 1)\<close>:
\<close>

theorem homomorphicMultiplyScalar_zero_scalar_leaves_range:
  "pk_nSquared \<lparr> pk_n = 1, pk_nSquared = 1, pk_g = 2 \<rparr>
     = pk_n \<lparr> pk_n = 1, pk_nSquared = 1, pk_g = 2 \<rparr> * pk_n \<lparr> pk_n = 1, pk_nSquared = 1, pk_g = 2 \<rparr>
   \<and> 1 \<le> pk_nSquared \<lparr> pk_n = 1, pk_nSquared = 1, pk_g = 2 \<rparr>
   \<and> pk_g \<lparr> pk_n = 1, pk_nSquared = 1, pk_g = 2 \<rparr> = pk_n \<lparr> pk_n = 1, pk_nSquared = 1, pk_g = 2 \<rparr> + 1
   \<and> (0::int) \<le> 0 \<and> (0::int) < pk_nSquared \<lparr> pk_n = 1, pk_nSquared = 1, pk_g = 2 \<rparr>
   \<and> homomorphicMultiplyScalar 0 0 \<lparr> pk_n = 1, pk_nSquared = 1, pk_g = 2 \<rparr> = Inr 1
   \<and> \<not> (1::int) < pk_nSquared \<lparr> pk_n = 1, pk_nSquared = 1, pk_g = 2 \<rparr>"
  by code_simp

subsection \<open>Order of the tally\<close>

text \<open>
  Claim C9 (fold order independence): under a fixed public key \<open>homomorphicAdd\<close> is
  commutative and associative, exceptions included, and the tally \<open>computeHomomorphicSum\<close>
  of \<open>[c1, c2, c3]\<close> is the same in each of the six orders. It holds for every public key
  and all integers; lemma \<open>computeHomomorphicSum_permutation\<close> extends it to every
  permutation of a list of any length.
\<close>

theorem homomorphicAdd_fold_order_independent:
  "homomorphicAdd c1 c2 publicKey = homomorphicAdd c2 c1 publicKey
   \<and> (case homomorphicAdd c1 c2 publicKey of
         Inl e \<Rightarrow> Inl e
       | Inr c12 \<Rightarrow> homomorphicAdd c12 c3 publicKey)
     = (case homomorphicAdd c2 c3 publicKey of
          Inl e \<Rightarrow> Inl e
        | Inr c23 \<Rightarrow> homomorphicAdd c1 c23 publicKey)
   \<and> computeHomomorphicSum [c1, c3, c2] publicKey = computeHomomorphicSum [c1, c2, c3] publicKey
   \<and> computeHomomorphicSum [c2, c1, c3] publicKey = computeHomomorphicSum [c1, c2, c3] publicKey
   \<and> computeHomomorphicSum [c2, c3, c1] publicKey = computeHomomorphicSum [c1, c2, c3] publicKey
   \<and> computeHomomorphicSum [c3, c1, c2] publicKey = computeHomomorphicSum [c1, c2, c3] publicKey
   \<and> computeHomomorphicSum [c3, c2, c1] publicKey = computeHomomorphicSum [c1, c2, c3] publicKey"
proof (intro conjI)
  show "homomorphicAdd c1 c2 publicKey = homomorphicAdd c2 c1 publicKey"
    by (simp add: homomorphicAdd_def mult.commute)
  show "(case homomorphicAdd c1 c2 publicKey of
           Inl e \<Rightarrow> Inl e
         | Inr c12 \<Rightarrow> homomorphicAdd c12 c3 publicKey)
      = (case homomorphicAdd c2 c3 publicKey of
           Inl e \<Rightarrow> Inl e
         | Inr c23 \<Rightarrow> homomorphicAdd c1 c23 publicKey)"
    by (simp add: homomorphicAdd_def bigint_rem_def smod_mult_left smod_mult_right mult.assoc)
qed (rule computeHomomorphicSum_permutation, simp)+

subsection \<open>The homomorphic operations read only the ciphertext modulus\<close>

text \<open>
  Claim C10: two public keys with the same \<open>nSquared\<close> (whatever their \<open>n\<close> and \<open>g\<close>) give
  the same result in \<open>homomorphicAdd\<close> and in \<open>homomorphicMultiplyScalar\<close>, for all
  ciphertexts and scalars; neither function compares a ciphertext with the key, and the
  only exception of either is the \<open>RangeError\<close> of a zero \<open>nSquared\<close>.
\<close>

theorem homomorphic_ops_depend_on_nSquared_only:
  assumes "pk_nSquared k1 = pk_nSquared k2"
  shows "homomorphicAdd c1 c2 k1 = homomorphicAdd c1 c2 k2
       \<and> homomorphicMultiplyScalar c scalar k1 = homomorphicMultiplyScalar c scalar k2
       \<and> ((\<exists>e. homomorphicAdd c1 c2 k1 = Inl e) \<longleftrightarrow> pk_nSquared k1 = 0)
       \<and> ((\<exists>e. homomorphicMultiplyScalar c scalar k1 = Inl e) \<longleftrightarrow> pk_nSquared k1 = 0)"
  using assms
  by (simp add: homomorphicAdd_def homomorphicMultiplyScalar_def modPow_def bigint_rem_def)

theorem homomorphic_ops_depend_on_nSquared_only_witness:
  "pk_nSquared \<lparr>pk_n = 15, pk_nSquared = 225, pk_g = 16\<rparr>
     = pk_nSquared \<lparr>pk_n = - 15, pk_nSquared = 225, pk_g = 7\<rparr>
   \<and> homomorphicAdd 88 19 \<lparr>pk_n = 15, pk_nSquared = 225, pk_g = 16\<rparr>
     = homomorphicAdd 88 19 \<lparr>pk_n = - 15, pk_nSquared = 225, pk_g = 7\<rparr>
   \<and> homomorphicMultiplyScalar 88 3 \<lparr>pk_n = 15, pk_nSquared = 225, pk_g = 16\<rparr>
     = homomorphicMultiplyScalar 88 3 \<lparr>pk_n = - 15, pk_nSquared = 225, pk_g = 7\<rparr>"
  using homomorphic_ops_depend_on_nSquared_only
    [of "\<lparr>pk_n = 15, pk_nSquared = 225, pk_g = 16\<rparr>"
        "\<lparr>pk_n = - 15, pk_nSquared = 225, pk_g = 7\<rparr>" 88 19 88 3]
  by simp

end
